theory Spec2Isabelle
  imports Complex_Main "HOL-Library.AList"
begin

section \<open>Python strings\<close>

text \<open>
  A Python \<open>str\<close> is a sequence of code points. The model is \<open>string\<close>, a list of
  \<open>char\<close>, each \<open>char\<close> standing for the code point with the same number, so the texts
  covered are those whose code points are below 256. The three character classes the
  source relies on are written out for that range as CPython classifies it:
  \<^item> \<open>is_space\<close>: what \<open>str.strip()\<close> removes and what \<open>\s\<close> matches;
  \<^item> \<open>is_linebreak\<close>: where \<open>str.splitlines()\<close> cuts;
  \<^item> \<open>is_word\<close>: what \<open>\w\<close> matches (alphanumeric or underscore).
\<close>

definition code :: "char \<Rightarrow> nat" where
  "code c = of_char c"

definition is_space :: "char \<Rightarrow> bool" where
  "is_space c = (let n = code c in
     (9 \<le> n \<and> n \<le> 13) \<or> (28 \<le> n \<and> n \<le> 32) \<or> n = 133 \<or> n = 160)"

definition is_linebreak :: "char \<Rightarrow> bool" where
  "is_linebreak c = (let n = code c in
     (10 \<le> n \<and> n \<le> 13) \<or> (28 \<le> n \<and> n \<le> 30) \<or> n = 133)"

definition is_ident_start :: "char \<Rightarrow> bool" where
  \<comment> \<open>the class \<open>[A-Za-z_]\<close>\<close>
  "is_ident_start c = (let n = code c in
     (65 \<le> n \<and> n \<le> 90) \<or> (97 \<le> n \<and> n \<le> 122) \<or> n = 95)"

definition is_word :: "char \<Rightarrow> bool" where
  "is_word c = (let n = code c in
     (48 \<le> n \<and> n \<le> 57) \<or> (65 \<le> n \<and> n \<le> 90) \<or> n = 95 \<or> (97 \<le> n \<and> n \<le> 122) \<or>
     n = 170 \<or> n = 178 \<or> n = 179 \<or> n = 181 \<or> n = 185 \<or> n = 186 \<or>
     (188 \<le> n \<and> n \<le> 190) \<or> (192 \<le> n \<and> n \<le> 214) \<or> (216 \<le> n \<and> n \<le> 246) \<or>
     (248 \<le> n \<and> n \<le> 255))"

definition py_strip :: "string \<Rightarrow> string" where
  \<comment> \<open>\<open>s.strip()\<close>: leading and trailing whitespace removed\<close>
  "py_strip s = rev (dropWhile is_space (rev (dropWhile is_space s)))"

definition startswith :: "string \<Rightarrow> string \<Rightarrow> bool" where
  \<comment> \<open>\<open>s.startswith(p)\<close>\<close>
  "startswith s p = (take (length p) s = p)"

fun splitlines_from :: "string \<Rightarrow> string \<Rightarrow> string list" where
  "splitlines_from cur [] = (if cur = [] then [] else [cur])"
| "splitlines_from cur (c # cs) =
     (if c = CHR 0x0D \<and> cs \<noteq> [] \<and> hd cs = CHR 0x0A then cur # splitlines_from [] (tl cs)
      else if is_linebreak c then cur # splitlines_from [] cs
      else splitlines_from (cur @ [c]) cs)"

definition splitlines :: "string \<Rightarrow> string list" where
  \<comment> \<open>\<open>s.splitlines()\<close>: cut at every line boundary, \<open>\r\n\<close> counting as one; the
      boundaries are dropped and no empty last line is produced\<close>
  "splitlines s = splitlines_from [] s"

fun join_nl :: "string list \<Rightarrow> string" where
  \<comment> \<open>\<open>'\n'.join(xs)\<close>\<close>
  "join_nl [] = []"
| "join_nl [x] = x"
| "join_nl (x # y # ys) = x @ CHR 0x0A # join_nl (y # ys)"

section \<open>The unified-diff parser (internal/patch\_parser.py)\<close>

text \<open>
  A \<open>dict\<close> keeps its keys in insertion order and an assignment to an existing key
  replaces the value in place: an association list with \<open>AList.update\<close>.
\<close>

type_synonym files_map = "(string \<times> string list) list"

definition match_file_header :: "string \<Rightarrow> string option" where
  \<comment> \<open>\<open>re.match(r'^\+\+\+\s+b/(.+)$', ln)\<close>, returning \<open>m.group(1)\<close>. A line holds no
      line boundary, so \<open>.\<close> matches each of its characters and \<open>$\<close> is its end; \<open>b\<close>
      is no whitespace, so \<open>\s+\<close> can only take the whole run of whitespace.\<close>
  "match_file_header line =
     (if startswith line ''+++'' then
        (let r = drop 3 line; r' = dropWhile is_space r in
         if takeWhile is_space r \<noteq> [] \<and> startswith r' ''b/'' \<and> drop 2 r' \<noteq> []
         then Some (drop 2 r') else None)
      else None)"

record pstate =
  files :: files_map
  current_file :: "string option"
  current_hunks :: "string list"
  hunk_buf :: "string list"

definition flush_buf :: "pstate \<Rightarrow> string list" where
  \<comment> \<open>\<open>if hunk_buf: current_hunks.append('\n'.join(hunk_buf))\<close>, as the new \<open>current_hunks\<close>\<close>
  "flush_buf s = (if hunk_buf s \<noteq> [] then current_hunks s @ [join_nl (hunk_buf s)]
                  else current_hunks s)"

definition is_body_line :: "string \<Rightarrow> bool" where
  "is_body_line line = (startswith line ''+'' \<or> startswith line ''-'' \<or> startswith line '' '')"

definition parse_step :: "pstate \<Rightarrow> string \<Rightarrow> pstate" where
  \<comment> \<open>one turn of the loop \<open>for ln in lines\<close>\<close>
  "parse_step s line =
     (case match_file_header line of
        Some grp \<Rightarrow>
          \<lparr> files = (case current_file s of
                       None \<Rightarrow> files s
                     | Some cf \<Rightarrow> AList.update cf (flush_buf s) (files s)),
            current_file = Some (py_strip grp),
            current_hunks = [],
            hunk_buf = [] \<rparr>
      | None \<Rightarrow>
          if startswith line ''@@'' then
            s\<lparr> current_hunks := flush_buf s, hunk_buf := [line] \<rparr>
          else if current_file s \<noteq> None \<and> is_body_line line then
            s\<lparr> hunk_buf := hunk_buf s @ [line] \<rparr>
          else s)"

definition parse_init :: pstate where
  "parse_init = \<lparr> files = [], current_file = None, current_hunks = [], hunk_buf = [] \<rparr>"

definition parse_finish :: "pstate \<Rightarrow> files_map" where
  \<comment> \<open>the block after the loop (\<open># finalize last\<close>)\<close>
  "parse_finish s =
     (case current_file s of
        None \<Rightarrow> files s
      | Some cf \<Rightarrow> AList.update cf (flush_buf s) (files s))"

definition parse_lines :: "string list \<Rightarrow> files_map" where
  "parse_lines lns = parse_finish (foldl parse_step parse_init lns)"

definition parse_file_hunks :: "string \<Rightarrow> files_map" where
  "parse_file_hunks diff = (if diff = [] then [] else parse_lines (splitlines diff))"

definition header_path :: "string \<Rightarrow> string option" where
  \<comment> \<open>the key a \<open>+++ b/\<close> header line opens: \<open>m.group(1).strip()\<close>\<close>
  "header_path line = map_option py_strip (match_file_header line)"

text \<open>
  What holds of the hunk lists at every turn of the loop: a hunk starts with \<open>@@\<close> or,
  when it is the first of its list, with a body line; a buffer that starts with a body
  line exists only while the list is still empty.
\<close>

definition good_hunks :: "string list \<Rightarrow> bool" where
  "good_hunks hs = ((\<forall>h\<in>set hs. startswith h ''@@'' \<or> is_body_line h) \<and>
                    (\<forall>h\<in>set (tl hs). startswith h ''@@''))"

definition parse_inv :: "pstate \<Rightarrow> bool" where
  "parse_inv s = ((\<forall>(p, hs)\<in>set (files s). good_hunks hs) \<and> good_hunks (current_hunks s) \<and>
     (hunk_buf s = [] \<longrightarrow> current_hunks s = []) \<and>
     (hunk_buf s \<noteq> [] \<longrightarrow> startswith (hd (hunk_buf s)) ''@@'' \<or>
        (is_body_line (hd (hunk_buf s)) \<and> current_hunks s = [])))"

text \<open>
  For the first hunk of a file: the lines of a section after its header, up to the next
  header (\<open>section_lines\<close>); among them the lines the loop acts on, an \<open>@@\<close> line or a
  body line (\<open>marked_lines\<close>); the state right after a header for the path \<open>p\<close>, the
  stored map left out (\<open>fresh_section\<close>); and what holds of the state once the first such
  line \<open>x\<close> has been read (\<open>first_is\<close>): the first hunk, finished or still in the buffer,
  starts with \<open>x\<close>.
\<close>

definition section_lines :: "string list \<Rightarrow> string list" where
  "section_lines rest = takeWhile (\<lambda>l. match_file_header l = None) rest"

definition marked_lines :: "string list \<Rightarrow> string list" where
  "marked_lines lns = filter (\<lambda>l. startswith l ''@@'' \<or> is_body_line l) lns"

definition first_is :: "string \<Rightarrow> pstate \<Rightarrow> bool" where
  "first_is x s =
     ((current_hunks s \<noteq> [] \<and> startswith (hd (current_hunks s)) x) \<or>
      (current_hunks s = [] \<and> hunk_buf s \<noteq> [] \<and> hd (hunk_buf s) = x))"

definition fresh_section :: "string \<Rightarrow> pstate" where
  "fresh_section p = \<lparr>files = [], current_file = Some p, current_hunks = [], hunk_buf = []\<rparr>"

section \<open>The identifier extractor (internal/name\_extractor.py)\<close>

text \<open>
  The three patterns are anchored at the start of the content by \<open>^\<close>, so \<open>search\<close>
  tries position 0 only. Each is a sequence of greedy runs, and every run is followed by
  a character outside its class (a letter after \<open>\s*\<close>, whitespace or a punctuation mark
  after \<open>\w*\<close>), so backtracking cannot give a match that taking the longest run misses.
  Each function returns \<open>m.group(1)\<close>, or \<open>None\<close> where the pattern does not match.
\<close>

definition match_ident :: "string \<Rightarrow> (string \<times> string) option" where
  \<comment> \<open>\<open>([A-Za-z_]\w*)\<close>: the name and what follows it\<close>
  "match_ident s =
     (case s of
        [] \<Rightarrow> None
      | c # cs \<Rightarrow> if is_ident_start c
                  then Some (c # takeWhile is_word cs, dropWhile is_word cs) else None)"

definition match_keyword_decl :: "string \<Rightarrow> string \<Rightarrow> (string \<times> string) option" where
  \<comment> \<open>\<open>^\s*KW\s+([A-Za-z_]\w*)\s*\<close>: the name and what follows the whitespace after it\<close>
  "match_keyword_decl kw content =
     (let s1 = dropWhile is_space content in
      if startswith s1 kw then
        (let s2 = drop (length kw) s1 in
         if takeWhile is_space s2 \<noteq> [] then
           (case match_ident (dropWhile is_space s2) of
              None \<Rightarrow> None
            | Some (name, s3) \<Rightarrow> Some (name, dropWhile is_space s3))
         else None)
      else None)"

definition pattern_def :: "string \<Rightarrow> string option" where
  \<comment> \<open>\<open>^\s*def\s+([A-Za-z_]\w*)\s*\(\<close>\<close>
  "pattern_def content =
     (case match_keyword_decl ''def'' content of
        None \<Rightarrow> None
      | Some (name, s) \<Rightarrow> if startswith s ''('' then Some name else None)"

definition pattern_class :: "string \<Rightarrow> string option" where
  \<comment> \<open>\<open>^\s*class\s+([A-Za-z_]\w*)\s*[:\(]\<close>\<close>
  "pattern_class content =
     (case match_keyword_decl ''class'' content of
        None \<Rightarrow> None
      | Some (name, s) \<Rightarrow> if startswith s '':'' \<or> startswith s ''('' then Some name else None)"

definition pattern_assign :: "string \<Rightarrow> string option" where
  \<comment> \<open>\<open>^\s*([A-Za-z_]\w*)\s*=\<close>\<close>
  "pattern_assign content =
     (case match_ident (dropWhile is_space content) of
        None \<Rightarrow> None
      | Some (name, s) \<Rightarrow> if startswith (dropWhile is_space s) ''='' then Some name else None)"

definition line_content :: "string \<Rightarrow> string" where
  \<comment> \<open>\<open>ln[1:] if ln.startswith(('+', '-', ' ')) else ln\<close>\<close>
  "line_content line = (if is_body_line line then drop 1 line else line)"

definition extract_step :: "string set \<times> string set \<Rightarrow> string \<Rightarrow> string set \<times> string set" where
  \<comment> \<open>one turn of the loop over the hunk's lines; the state is \<open>(funcs, vars)\<close>\<close>
  "extract_step acc line =
     (let content = line_content line in
      case pattern_def content of
        Some name \<Rightarrow> (insert name (fst acc), snd acc)
      | None \<Rightarrow>
         (case pattern_class content of
            Some name \<Rightarrow> (insert name (fst acc), snd acc)
          | None \<Rightarrow>
             (case pattern_assign content of
                Some name \<Rightarrow> (fst acc, insert name (snd acc))
              | None \<Rightarrow> acc)))"

definition extract_funcs_and_vars_from_hunk :: "string \<Rightarrow> string set \<times> string set" where
  "extract_funcs_and_vars_from_hunk hunk = foldl extract_step ({}, {}) (splitlines hunk)"

definition collect_hunk :: "string set \<times> string set \<Rightarrow> string \<Rightarrow> string set \<times> string set" where
  \<comment> \<open>\<open>F.update(fset); V.update(vset)\<close> for one hunk\<close>
  "collect_hunk acc h =
     (let (fset, vset) = extract_funcs_and_vars_from_hunk h in (fst acc \<union> fset, snd acc \<union> vset))"

definition collect_funcs_vars_from_files_map :: "files_map \<Rightarrow> string set \<times> string set" where
  "collect_funcs_vars_from_files_map files_map =
     foldl (\<lambda>acc hunks. foldl collect_hunk acc hunks) ({}, {}) (map snd files_map)"

section \<open>The scorer (evaluate.py)\<close>

text \<open>
  Python's \<open>float\<close> is modelled by \<open>real\<close>: the components are fractions of small
  counts and the weights are the decimal constants of the source, taken exactly.
\<close>

definition get_hunks :: "files_map \<Rightarrow> string \<Rightarrow> string list" where
  \<comment> \<open>\<open>files.get(p, [])\<close>\<close>
  "get_hunks m p = (case map_of m p of None \<Rightarrow> [] | Some hs \<Rightarrow> hs)"

definition path_matches :: "files_map \<Rightarrow> files_map \<Rightarrow> string \<Rightarrow> bool" where
  \<comment> \<open>\<open>g_hunks and a_hunks and g_hunks == a_hunks\<close>\<close>
  "path_matches g_files a_files p =
     (let g_hunks = get_hunks g_files p; a_hunks = get_hunks a_files p in
      g_hunks \<noteq> [] \<and> a_hunks \<noteq> [] \<and> g_hunks = a_hunks)"

definition file_score :: "string \<Rightarrow> string \<Rightarrow> real" where
  \<comment> \<open>the value of \<open>file_score\<close> for the trimmed texts \<open>g\<close> and \<open>a\<close>\<close>
  "file_score g a =
     (let g_files = parse_file_hunks g; a_files = parse_file_hunks a in
      if g_files = [] \<and> a_files = [] then
        (if py_strip g = py_strip a \<and> g \<noteq> [] then 1 else 0)
      else
        (let all_paths = set (map fst g_files) \<union> set (map fst a_files) in
         if all_paths = {} then 0
         else real (card (Set.filter (path_matches g_files a_files) all_paths))
                / real (card all_paths)))"

definition jaccard :: "string set \<Rightarrow> string set \<Rightarrow> real" where
  "jaccard s1 s2 =
     (if s1 = {} \<and> s2 = {} then 1
      else if s1 = {} \<or> s2 = {} then 0
      else if card (s1 \<union> s2) \<noteq> 0 then real (card (s1 \<inter> s2)) / real (card (s1 \<union> s2))
      else 0)"

definition func_score :: "string \<Rightarrow> string \<Rightarrow> real" where
  "func_score g a =
     jaccard (fst (collect_funcs_vars_from_files_map (parse_file_hunks g)))
             (fst (collect_funcs_vars_from_files_map (parse_file_hunks a)))"

definition var_score :: "string \<Rightarrow> string \<Rightarrow> real" where
  "var_score g a =
     jaccard (snd (collect_funcs_vars_from_files_map (parse_file_hunks g)))
             (snd (collect_funcs_vars_from_files_map (parse_file_hunks a)))"

definition score_patch_similarity :: "string \<Rightarrow> string \<Rightarrow> real" where
  "score_patch_similarity generated actual =
     (let g = py_strip generated; a = py_strip actual in
      if g = [] \<and> a = [] then 0
      else
        (let combined = 0.5 * file_score g a + 0.35 * func_score g a + 0.15 * var_score g a
         in max 0 (min 1 combined)))"

subsection \<open>The file-identity rule as the specification words it\<close>

text \<open>
  For comparison with \<open>path_matches\<close> and \<open>file_score\<close>: the specification counts a path
  when it is a key of both maps and the two hunk sequences are equal, empty or not.
\<close>

definition spec_path_matches :: "files_map \<Rightarrow> files_map \<Rightarrow> string \<Rightarrow> bool" where
  "spec_path_matches g_files a_files p =
     (p \<in> set (map fst g_files) \<and> p \<in> set (map fst a_files) \<and>
      map_of g_files p = map_of a_files p)"

definition spec_file_score :: "string \<Rightarrow> string \<Rightarrow> real" where
  "spec_file_score g a =
     (let g_files = parse_file_hunks g; a_files = parse_file_hunks a;
          P = set (map fst g_files) \<union> set (map fst a_files) in
      if P = {} then 0
      else real (card (Set.filter (spec_path_matches g_files a_files) P)) / real (card P))"

section \<open>Facts about characters and strings\<close>

lemma space_not_word: "is_space c \<Longrightarrow> \<not> is_word c"
  by (auto simp: is_space_def is_word_def Let_def)

lemma space_not_ident_start: "is_space c \<Longrightarrow> \<not> is_ident_start c"
  by (auto simp: is_space_def is_ident_start_def Let_def)

lemma ident_start_word: "is_ident_start c \<Longrightarrow> is_word c"
  by (auto simp: is_word_def is_ident_start_def Let_def)

lemma plus_not_space: "\<not> is_space (CHR ''+'')"
  by (simp add: is_space_def code_def)

lemma eq_char: "\<not> is_space (CHR ''='')" "\<not> is_word (CHR ''='')" "\<not> is_ident_start (CHR ''='')"
  by (simp_all add: is_space_def is_word_def is_ident_start_def code_def)

lemma dropWhile_last: "dropWhile P xs \<noteq> [] \<Longrightarrow> last (dropWhile P xs) = last xs"
  by (induction xs) (auto split: if_splits)

lemma py_strip_idem: "py_strip (py_strip s) = py_strip s"
proof -
  define t where "t = dropWhile is_space s"
  define u where "u = dropWhile is_space (rev t)"
  have "dropWhile is_space (rev u) = rev u"
  proof (cases "u = []")
    case True
    then show ?thesis by simp
  next
    case False
    then have "last u = last (rev t)"
      unfolding u_def by (rule dropWhile_last)
    moreover from False have "t \<noteq> []"
      unfolding u_def by auto
    ultimately have "last u = hd t"
      by (simp add: last_rev)
    moreover from \<open>t \<noteq> []\<close> have "\<not> is_space (hd t)"
      unfolding t_def by (rule hd_dropWhile)
    ultimately have "\<not> is_space (hd (rev u))"
      using False by (simp add: hd_rev)
    with False show ?thesis
      by (cases "rev u") auto
  qed
  moreover have "dropWhile is_space u = u"
    unfolding u_def by simp
  ultimately show ?thesis
    by (simp add: py_strip_def t_def[symmetric] u_def[symmetric])
qed

lemma splitlines_from_chars:
  "l \<in> set (splitlines_from cur s) \<Longrightarrow> set l \<subseteq> set cur \<union> set s"
proof (induction cur s rule: splitlines_from.induct)
  case (1 cur)
  then show ?case by (auto split: if_splits)
next
  case (2 cur c cs)
  then show ?case
    by (cases cs) (auto split: if_splits)
qed

lemma splitlines_chars: "l \<in> set (splitlines s) \<Longrightarrow> set l \<subseteq> set s"
  using splitlines_from_chars[of l "[]" s] by (simp add: splitlines_def)

lemma parse_file_hunks_lines: "parse_file_hunks d = parse_lines (splitlines d)"
  by (simp add: parse_file_hunks_def splitlines_def parse_lines_def parse_init_def
      parse_finish_def)

section \<open>Facts about the parser\<close>

lemma step_no_header:
  "match_file_header l = None \<Longrightarrow>
     files (parse_step s l) = files s \<and> current_file (parse_step s l) = current_file s"
  by (simp add: parse_step_def)

lemma foldl_no_header:
  "\<forall>l\<in>set ls. match_file_header l = None \<Longrightarrow>
     files (foldl parse_step s ls) = files s \<and>
     current_file (foldl parse_step s ls) = current_file s"
  by (induction ls arbitrary: s) (simp_all add: step_no_header)

lemma step_buf_indep:
  assumes "match_file_header l = None"
    and "current_file s = None \<longleftrightarrow> current_file t = None"
    and "current_hunks s = current_hunks t" and "hunk_buf s = hunk_buf t"
  shows "current_hunks (parse_step s l) = current_hunks (parse_step t l) \<and>
         hunk_buf (parse_step s l) = hunk_buf (parse_step t l)"
  using assms by (simp add: parse_step_def flush_buf_def)

lemma foldl_buf_indep:
  assumes "\<forall>l\<in>set ls. match_file_header l = None"
    and "current_file s = None \<longleftrightarrow> current_file t = None"
    and "current_hunks s = current_hunks t" and "hunk_buf s = hunk_buf t"
  shows "current_hunks (foldl parse_step s ls) = current_hunks (foldl parse_step t ls) \<and>
         hunk_buf (foldl parse_step s ls) = hunk_buf (foldl parse_step t ls)"
  using assms
proof (induction ls arbitrary: s t)
  case Nil
  then show ?case by simp
next
  case (Cons l ls)
  have h: "match_file_header l = None" using Cons.prems(1) by simp
  have "current_hunks (parse_step s l) = current_hunks (parse_step t l) \<and>
         hunk_buf (parse_step s l) = hunk_buf (parse_step t l)"
    using step_buf_indep[OF h Cons.prems(2,3,4)] .
  moreover have "current_file (parse_step s l) = None \<longleftrightarrow> current_file (parse_step t l) = None"
    using step_no_header[OF h] Cons.prems(2) by simp
  ultimately show ?case using Cons.IH[of "parse_step s l" "parse_step t l"] Cons.prems(1)
    by simp
qed

lemma other_paths_kept:
  assumes "current_file s \<noteq> Some p"
    and "\<forall>l\<in>set ls. header_path l \<noteq> Some p"
  shows "map_of (parse_finish (foldl parse_step s ls)) p = map_of (files s) p"
  using assms
proof (induction ls arbitrary: s)
  case Nil
  then show ?case
    by (cases "current_file s") (simp_all add: parse_finish_def update_conv')
next
  case (Cons l ls)
  have a: "current_file (parse_step s l) \<noteq> Some p"
    using Cons.prems by (cases "match_file_header l") (auto simp: parse_step_def header_path_def)
  have b: "map_of (files (parse_step s l)) p = map_of (files s) p"
    using Cons.prems(1)
    by (cases "match_file_header l"; cases "current_file s") (auto simp: parse_step_def update_conv')
  show ?case using Cons.IH[OF a] Cons.prems(2) b by simp
qed

lemma step_header:
  "match_file_header l = Some grp \<Longrightarrow>
   parse_step s l = \<lparr> files = (case current_file s of None \<Rightarrow> files s
                     | Some cf \<Rightarrow> AList.update cf (flush_buf s) (files s)),
            current_file = Some (py_strip grp), current_hunks = [], hunk_buf = [] \<rparr>"
  by (simp add: parse_step_def)

lemma section_value:
  assumes hdr: "match_file_header hdr = Some grp" and p: "p = py_strip grp"
    and body: "\<forall>l\<in>set body. match_file_header l = None"
    and rest: "\<forall>l\<in>set rest. header_path l \<noteq> Some p"
    and nxt: "rest = [] \<or> match_file_header (hd rest) \<noteq> None"
  shows "map_of (parse_finish (foldl parse_step s (hdr # body @ rest))) p
       = Some (flush_buf (foldl parse_step \<lparr>files = [], current_file = Some p, current_hunks = [], hunk_buf = []\<rparr> body))"
proof -
  let ?t = "\<lparr>files = [], current_file = Some p, current_hunks = [], hunk_buf = []\<rparr>"
  define s1 where "s1 = parse_step s hdr"
  define s2 where "s2 = foldl parse_step s1 body"
  have s1: "current_file s1 = Some p" "current_hunks s1 = []" "hunk_buf s1 = []"
    unfolding s1_def by (simp_all add: step_header[OF hdr] p)
  have cf2: "current_file s2 = Some p"
    unfolding s2_def using foldl_no_header[OF body, of s1] s1 by simp
  have "current_hunks s2 = current_hunks (foldl parse_step ?t body) \<and>
        hunk_buf s2 = hunk_buf (foldl parse_step ?t body)"
    unfolding s2_def by (rule foldl_buf_indep[OF body]) (simp_all add: s1)
  then have fl: "flush_buf s2 = flush_buf (foldl parse_step ?t body)"
    by (simp add: flush_buf_def)
  have "map_of (parse_finish (foldl parse_step s2 rest)) p = Some (flush_buf s2)"
  proof (cases rest)
    case Nil
    then show ?thesis by (simp add: parse_finish_def cf2 update_conv')
  next
    case (Cons r rs)
    with nxt obtain g where g: "match_file_header r = Some g" by auto
    have np: "py_strip g \<noteq> p" using rest Cons g by (auto simp: header_path_def)
    have a: "current_file (parse_step s2 r) \<noteq> Some p"
      by (simp add: step_header[OF g] np)
    have b: "\<forall>l\<in>set rs. header_path l \<noteq> Some p" using rest Cons by simp
    have "map_of (files (parse_step s2 r)) p = Some (flush_buf s2)"
      by (simp add: step_header[OF g] cf2 update_conv')
    with other_paths_kept[OF a b] show ?thesis using Cons by simp
  qed
  with fl show ?thesis by (simp add: s1_def s2_def)
qed

lemma takeWhile_dropWhile_next:
  "dropWhile P xs = [] \<or> \<not> P (hd (dropWhile P xs))"
  by (metis hd_dropWhile)

lemma keys_step: "distinct (map fst (files s)) \<Longrightarrow> distinct (map fst (files (parse_step s l)))"
  by (cases "match_file_header l"; cases "current_file s") (auto simp: parse_step_def distinct_update)

lemma keys_foldl: "distinct (map fst (files s)) \<Longrightarrow> distinct (map fst (files (foldl parse_step s ls)))"
  by (induction ls arbitrary: s) (simp_all add: keys_step)

lemma parse_lines_distinct: "distinct (map fst (parse_lines ls))"
proof -
  have "distinct (map fst (files (foldl parse_step parse_init ls)))"
    by (rule keys_foldl) (simp add: parse_init_def)
  then show ?thesis
    by (cases "current_file (foldl parse_step parse_init ls)")
       (simp_all add: parse_lines_def parse_finish_def distinct_update)
qed

lemma startswith_append: "startswith x p \<Longrightarrow> startswith (x @ y) p"
proof -
  assume a: "startswith x p"
  then have "length (take (length p) x) = length p"
    by (simp add: startswith_def)
  then have "length p \<le> length x"
    by simp
  with a show ?thesis by (simp add: startswith_def)
qed

lemma join_nl_Cons: "\<exists>r. join_nl (x # xs) = x @ r"
  by (cases xs) auto

lemma startswith_join: "buf \<noteq> [] \<Longrightarrow> startswith (hd buf) p \<Longrightarrow> startswith (join_nl buf) p"
proof -
  assume a: "buf \<noteq> []" "startswith (hd buf) p"
  then obtain x xs where b: "buf = x # xs" by (cases buf) auto
  obtain r where "join_nl (x # xs) = x @ r" using join_nl_Cons by blast
  with a b show ?thesis by (simp add: startswith_append)
qed

lemma body_line_join: "buf \<noteq> [] \<Longrightarrow> is_body_line (hd buf) \<Longrightarrow> is_body_line (join_nl buf)"
  unfolding is_body_line_def by (blast intro: startswith_join)

lemma good_flush: "parse_inv s \<Longrightarrow> good_hunks (flush_buf s)"
proof (cases "hunk_buf s = []")
  case True
  assume "parse_inv s"
  with True show ?thesis by (simp add: flush_buf_def parse_inv_def good_hunks_def)
next
  case False
  assume inv: "parse_inv s"
  from inv have g: "good_hunks (current_hunks s)" by (simp add: parse_inv_def)
  from inv False consider (a) "startswith (hd (hunk_buf s)) ''@@''"
    | (b) "is_body_line (hd (hunk_buf s))" "current_hunks s = []"
    by (auto simp: parse_inv_def)
  then show ?thesis
  proof cases
    case a
    then have "startswith (join_nl (hunk_buf s)) ''@@''" using False by (simp add: startswith_join)
    with g False show ?thesis
      by (cases "current_hunks s") (auto simp: flush_buf_def good_hunks_def)
  next
    case b
    then have "is_body_line (join_nl (hunk_buf s))" using False by (simp add: body_line_join)
    with b False show ?thesis by (simp add: flush_buf_def good_hunks_def)
  qed
qed

lemma update_entries: "e \<in> set (AList.update k v al) \<Longrightarrow> e \<in> set al \<or> e = (k, v)"
  by (induction al) (auto split: if_splits)

lemma good_update:
  "\<forall>(p, hs)\<in>set al. good_hunks hs \<Longrightarrow> good_hunks v \<Longrightarrow>
   \<forall>(p, hs)\<in>set (AList.update k v al). good_hunks hs"
  by (auto dest: update_entries)

lemma inv_init: "parse_inv parse_init"
  by (simp add: parse_inv_def parse_init_def good_hunks_def)

lemma inv_step: "parse_inv s \<Longrightarrow> parse_inv (parse_step s l)"
proof -
  assume inv: "parse_inv s"
  have fl: "good_hunks (flush_buf s)" using inv by (rule good_flush)
  have fs: "\<forall>(p, hs)\<in>set (files s). good_hunks hs" using inv by (simp add: parse_inv_def)
  show ?thesis
  proof (cases "match_file_header l")
    case (Some grp)
    have "\<forall>(p, hs)\<in>set (case current_file s of None \<Rightarrow> files s
            | Some cf \<Rightarrow> AList.update cf (flush_buf s) (files s)). good_hunks hs"
      using fs good_update[OF fs fl] by (cases "current_file s") simp_all
    then show ?thesis by (simp add: parse_step_def Some parse_inv_def good_hunks_def)
  next
    case None
    show ?thesis
    proof (cases "startswith l ''@@''")
      case True
      with None fl fs show ?thesis by (simp add: parse_step_def parse_inv_def)
    next
      case False
      show ?thesis
      proof (cases "current_file s \<noteq> None \<and> is_body_line l")
        case True
        with None False inv show ?thesis
          by (cases "hunk_buf s") (auto simp: parse_step_def parse_inv_def)
      next
        case f: False
        with None False inv show ?thesis by (auto simp: parse_step_def)
      qed
    qed
  qed
qed

lemma inv_foldl: "parse_inv s \<Longrightarrow> parse_inv (foldl parse_step s ls)"
  by (induction ls arbitrary: s) (simp_all add: inv_step)

lemma parse_lines_good: "(p, hs) \<in> set (parse_lines ls) \<Longrightarrow> good_hunks hs"
proof -
  let ?s = "foldl parse_step parse_init ls"
  assume a: "(p, hs) \<in> set (parse_lines ls)"
  have inv: "parse_inv ?s" by (rule inv_foldl[OF inv_init])
  then have fs: "\<forall>(p, hs)\<in>set (files ?s). good_hunks hs" by (simp add: parse_inv_def)
  have "\<forall>(p, hs)\<in>set (parse_finish ?s). good_hunks hs"
    using fs good_update[OF fs good_flush[OF inv]]
    by (cases "current_file ?s") (simp_all add: parse_finish_def)
  with a show ?thesis by (auto simp: parse_lines_def)
qed

lemma no_header_empty:
  assumes "\<forall>l\<in>set ls. match_file_header l = None"
  shows "parse_lines ls = []"
  using foldl_no_header[OF assms, of parse_init]
  by (simp add: parse_lines_def parse_finish_def parse_init_def)

lemma space_line_no_header: "\<forall>c\<in>set l. is_space c \<Longrightarrow> match_file_header l = None"
  by (cases l) (auto simp: match_file_header_def startswith_def plus_not_space)

lemma step_unrecognized:
  "match_file_header l = None \<Longrightarrow> \<not> startswith l ''@@'' \<Longrightarrow> \<not> is_body_line l \<Longrightarrow> parse_step s l = s"
  by (simp add: parse_step_def)

subsection \<open>The first hunk of a section\<close>

lemma startswith_refl: "startswith x x"
  by (simp add: startswith_def)

lemma startswith_trans: "startswith h x \<Longrightarrow> startswith x p \<Longrightarrow> startswith h p"
proof -
  assume a: "startswith h x" and b: "startswith x p"
  from a have "h = x @ drop (length x) h"
    unfolding startswith_def by (metis append_take_drop_id)
  with startswith_append[OF b, of "drop (length x) h"] show ?thesis
    by simp
qed

lemma hunk_header_not_body: "startswith l ''@@'' \<Longrightarrow> \<not> is_body_line l"
  by (cases l) (auto simp: startswith_def is_body_line_def)

lemma body_line_trans: "startswith h x \<Longrightarrow> is_body_line x \<Longrightarrow> is_body_line h"
  unfolding is_body_line_def by (blast intro: startswith_trans)

lemma step_keys:
  "fst ` set (files (parse_step s l)) \<union> {k. current_file (parse_step s l) = Some k}
     \<subseteq> fst ` set (files s) \<union> {k. current_file s = Some k} \<union> {k. header_path l = Some k}"
  by (cases "match_file_header l"; cases "current_file s")
     (auto simp: parse_step_def header_path_def dom_update)

lemma foldl_keys:
  "fst ` set (files (foldl parse_step s ls)) \<union> {k. current_file (foldl parse_step s ls) = Some k}
     \<subseteq> fst ` set (files s) \<union> {k. current_file s = Some k}
         \<union> {k. \<exists>l\<in>set ls. header_path l = Some k}"
proof (induction ls arbitrary: s)
  case Nil
  then show ?case by simp
next
  case (Cons l ls)
  let ?s' = "parse_step s l"
  have a: "fst ` set (files (foldl parse_step ?s' ls)) \<union> {k. current_file (foldl parse_step ?s' ls) = Some k}
     \<subseteq> fst ` set (files ?s') \<union> {k. current_file ?s' = Some k}
         \<union> {k. \<exists>l\<in>set ls. header_path l = Some k}"
    by (rule Cons.IH)
  have b: "{k. \<exists>x\<in>set (l # ls). header_path x = Some k}
         = {k. header_path l = Some k} \<union> {k. \<exists>l\<in>set ls. header_path l = Some k}"
    by auto
  show ?case
    unfolding foldl_Cons b using a step_keys[of s l] by blast
qed

lemma parse_lines_keys:
  assumes "(p, hs) \<in> set (parse_lines ls)"
  shows "\<exists>l\<in>set ls. header_path l = Some p"
proof -
  define s where "s = foldl parse_step parse_init ls"
  have "fst ` set (parse_finish s) \<subseteq> fst ` set (files s) \<union> {k. current_file s = Some k}"
    by (cases "current_file s") (auto simp: parse_finish_def dom_update)
  moreover have "fst ` set (files s) \<union> {k. current_file s = Some k}
       \<subseteq> {k. \<exists>l\<in>set ls. header_path l = Some k}"
    unfolding s_def using foldl_keys[of parse_init ls] by (simp add: parse_init_def)
  moreover from assms have "p \<in> fst ` set (parse_finish s)"
    unfolding parse_lines_def s_def by (rule rev_image_eqI) simp
  ultimately have "p \<in> {k. \<exists>l\<in>set ls. header_path l = Some k}"
    by blast
  then show ?thesis
    by simp
qed

lemma last_section_value:
  assumes "ls = pre @ hdr # rest"
    and "header_path hdr = Some p"
    and "\<forall>l\<in>set rest. header_path l \<noteq> Some p"
  shows "map_of (parse_lines ls) p
           = Some (flush_buf (foldl parse_step (fresh_section p) (section_lines rest)))"
proof -
  let ?P = "\<lambda>l. match_file_header l = None"
  obtain grp where hdr: "match_file_header hdr = Some grp" and p: "p = py_strip grp"
    using assms(2) by (auto simp: header_path_def)
  have body: "\<forall>l\<in>set (takeWhile ?P rest). match_file_header l = None"
    by (auto dest: set_takeWhileD)
  have r1: "\<forall>l\<in>set (dropWhile ?P rest). header_path l \<noteq> Some p"
    using assms(3) by (auto dest: set_dropWhileD)
  have r2: "dropWhile ?P rest = [] \<or> match_file_header (hd (dropWhile ?P rest)) \<noteq> None"
    using takeWhile_dropWhile_next[of ?P rest] by simp
  have "map_of (parse_finish (foldl parse_step (foldl parse_step parse_init pre)
          (hdr # takeWhile ?P rest @ dropWhile ?P rest))) p
       = Some (flush_buf (foldl parse_step
           \<lparr>files = [], current_file = Some p, current_hunks = [], hunk_buf = []\<rparr>
           (takeWhile ?P rest)))"
    by (rule section_value[OF hdr p body r1 r2])
  then show ?thesis
    by (simp add: assms(1) parse_lines_def section_lines_def fresh_section_def)
qed

lemma foldl_marked:
  "\<forall>l\<in>set body. match_file_header l = None \<Longrightarrow>
   foldl parse_step s body = foldl parse_step s (marked_lines body)"
proof (induction body arbitrary: s)
  case Nil
  then show ?case by (simp add: marked_lines_def)
next
  case (Cons l body)
  show ?case
  proof (cases "startswith l ''@@'' \<or> is_body_line l")
    case True
    with Cons show ?thesis by (simp add: marked_lines_def)
  next
    case False
    with Cons.prems have "parse_step s l = s"
      by (simp add: step_unrecognized)
    with False Cons show ?thesis by (simp add: marked_lines_def)
  qed
qed

lemma first_is_step:
  assumes "match_file_header l = None" and "first_is x s"
  shows "first_is x (parse_step s l)"
proof (cases "startswith l ''@@''")
  case True
  from assms(2) have "flush_buf s \<noteq> [] \<and> startswith (hd (flush_buf s)) x"
    unfolding first_is_def flush_buf_def
    by (auto simp: startswith_join startswith_refl)
  with True assms(1) show ?thesis
    by (simp add: parse_step_def first_is_def)
next
  case False
  with assms show ?thesis
    by (cases "hunk_buf s") (auto simp: parse_step_def first_is_def)
qed

lemma first_is_foldl:
  "\<forall>l\<in>set ls. match_file_header l = None \<Longrightarrow> first_is x s \<Longrightarrow>
   first_is x (foldl parse_step s ls)"
  by (induction ls arbitrary: s) (simp_all add: first_is_step)

lemma first_is_flush: "first_is x s \<Longrightarrow> flush_buf s \<noteq> [] \<and> startswith (hd (flush_buf s)) x"
  unfolding first_is_def flush_buf_def by (auto simp: startswith_join startswith_refl)

lemma section_first_hunk:
  assumes nh: "\<forall>l\<in>set body. match_file_header l = None"
  shows "(flush_buf (foldl parse_step (fresh_section p) body) = [] \<longleftrightarrow> marked_lines body = [])
       \<and> (marked_lines body \<noteq> [] \<longrightarrow>
            startswith (hd (flush_buf (foldl parse_step (fresh_section p) body)))
                       (hd (marked_lines body)))"
proof (cases "marked_lines body")
  case Nil
  then have "foldl parse_step (fresh_section p) body = fresh_section p"
    using foldl_marked[OF nh, of "fresh_section p"] by simp
  then show ?thesis
    using Nil by (simp add: flush_buf_def fresh_section_def)
next
  case (Cons x xs)
  have sub: "set (marked_lines body) \<subseteq> set body"
    by (auto simp: marked_lines_def)
  have mx: "match_file_header x = None" and mxs: "\<forall>l\<in>set xs. match_file_header l = None"
    using nh sub Cons by auto
  have "x \<in> set (marked_lines body)"
    using Cons by simp
  then have "startswith x ''@@'' \<or> is_body_line x"
    by (simp add: marked_lines_def)
  then have "first_is x (parse_step (fresh_section p) x)"
    using mx by (auto simp: parse_step_def fresh_section_def first_is_def flush_buf_def)
  then have "first_is x (foldl parse_step (parse_step (fresh_section p) x) xs)"
    by (rule first_is_foldl[OF mxs])
  then have "first_is x (foldl parse_step (fresh_section p) body)"
    using foldl_marked[OF nh, of "fresh_section p"] Cons by simp
  from first_is_flush[OF this] show ?thesis
    using Cons by simp
qed

section \<open>Facts about the extractor\<close>

lemma dropWhile_run:
  "\<forall>x\<in>set ws. P x \<Longrightarrow> r = [] \<or> \<not> P (hd r) \<Longrightarrow> dropWhile P (ws @ r) = r"
  by (cases r) (simp_all add: dropWhile_append2 dropWhile_append3)

lemma takeWhile_run:
  "\<forall>x\<in>set ws. P x \<Longrightarrow> r = [] \<or> \<not> P (hd r) \<Longrightarrow> takeWhile P (ws @ r) = ws"
  by (cases r) (simp_all add: takeWhile_append2)

lemma match_ident_run:
  assumes "is_ident_start c" and "\<forall>x\<in>set cs. is_word x" and "r = [] \<or> \<not> is_word (hd r)"
  shows "match_ident ((c # cs) @ r) = Some (c # cs, r)"
proof -
  have "takeWhile is_word (cs @ r) = cs"
    by (rule takeWhile_run[OF assms(2,3)])
  moreover have "dropWhile is_word (cs @ r) = r"
    by (rule dropWhile_run[OF assms(2,3)])
  ultimately show ?thesis
    using assms(1) by (simp add: match_ident_def)
qed

lemma pattern_assign_run:
  assumes ws: "\<forall>x\<in>set ws. is_space x" and c: "is_ident_start c"
    and cs: "\<forall>x\<in>set cs. is_word x" and ws': "\<forall>x\<in>set ws'. is_space x"
  shows "pattern_assign (ws @ (c # cs) @ ws' @ CHR ''='' # rest) = Some (c # cs)"
proof -
  let ?r = "ws' @ CHR ''='' # rest"
  have nw: "?r = [] \<or> \<not> is_word (hd ?r)"
    using ws' by (cases ws') (auto simp: eq_char space_not_word)
  have "dropWhile is_space (ws @ (c # cs) @ ?r) = (c # cs) @ ?r"
    by (rule dropWhile_run[OF ws]) (use c space_not_ident_start in auto)
  moreover have "match_ident ((c # cs) @ ?r) = Some (c # cs, ?r)"
    by (rule match_ident_run[OF c cs nw])
  moreover have "dropWhile is_space ?r = CHR ''='' # rest"
    by (rule dropWhile_run[OF ws']) (simp add: eq_char)
  ultimately show ?thesis
    by (simp add: pattern_assign_def startswith_def)
qed

lemma after_keyword:
  assumes "s1 = nm @ r" and "takeWhile P s1 = nm" and "s1 = kw @ t" and "\<forall>x\<in>set kw. P x"
  shows "t = takeWhile P t @ r"
proof -
  have "takeWhile P (kw @ t) = kw @ takeWhile P t"
    using assms(4) by (simp add: takeWhile_append2)
  with assms(2,3) have "nm = kw @ takeWhile P t"
    by simp
  with assms(1,3) have "kw @ t = kw @ takeWhile P t @ r"
    by simp
  then show ?thesis
    by simp
qed

lemma keyword_decl_none:
  assumes kw: "\<forall>x\<in>set kw. is_word x" and ws: "\<forall>x\<in>set ws. is_space x"
    and c: "is_ident_start c" and cs: "\<forall>x\<in>set cs. is_word x"
    and ws': "\<forall>x\<in>set ws'. is_space x"
  shows "match_keyword_decl kw (ws @ (c # cs) @ ws' @ CHR ''='' # rest) = None"
proof -
  define r where "r = ws' @ CHR ''='' # rest"
  define s1 where "s1 = (c # cs) @ r"
  define t where "t = drop (length kw) s1"
  have nm: "\<forall>x\<in>set (c # cs). is_word x"
    using c cs by (simp add: ident_start_word)
  have nw: "r = [] \<or> \<not> is_word (hd r)"
    unfolding r_def using ws' by (cases ws') (auto simp: eq_char space_not_word)
  have s1: "dropWhile is_space (ws @ (c # cs) @ ws' @ CHR ''='' # rest) = s1"
    unfolding s1_def r_def
    by (rule dropWhile_run[OF ws]) (use c space_not_ident_start in auto)
  have tw: "takeWhile is_word s1 = c # cs"
    unfolding s1_def by (rule takeWhile_run[OF nm nw])
  have dr: "dropWhile is_space r = CHR ''='' # rest"
    unfolding r_def by (rule dropWhile_run[OF ws']) (simp add: eq_char)
  have "match_ident (dropWhile is_space t) = None"
    if sp: "takeWhile is_space t \<noteq> []" and pre: "startswith s1 kw"
  proof -
    from pre have dec: "s1 = kw @ t"
      unfolding startswith_def t_def by (metis append_take_drop_id)
    have split: "t = takeWhile is_word t @ r"
      by (rule after_keyword[OF s1_def tw dec kw])
    from sp have "t \<noteq> []" "is_space (hd t)"
      by (auto simp: takeWhile_eq_Nil_iff)
    then have "takeWhile is_word t = []"
      by (simp add: takeWhile_eq_Nil_iff space_not_word)
    with split have "t = r"
      by simp
    with dr show ?thesis
      by (simp add: match_ident_def eq_char)
  qed
  then show ?thesis
    unfolding match_keyword_decl_def s1 Let_def t_def by (auto split: option.splits)
qed

lemma kw_def_word: "\<forall>x\<in>set ''def''. is_word x"
  by (simp add: is_word_def code_def)

lemma kw_class_word: "\<forall>x\<in>set ''class''. is_word x"
  by (simp add: is_word_def code_def)

lemma extract_step_vars_mono: "x \<in> snd acc \<Longrightarrow> x \<in> snd (extract_step acc l)"
  by (auto simp: extract_step_def Let_def split: option.splits)

lemma extract_foldl_vars_mono: "x \<in> snd acc \<Longrightarrow> x \<in> snd (foldl extract_step acc ls)"
  by (induction ls arbitrary: acc) (simp_all add: extract_step_vars_mono)

lemma extract_step_assign:
  "pattern_def (line_content l) = None \<Longrightarrow> pattern_class (line_content l) = None \<Longrightarrow>
   pattern_assign (line_content l) = Some nm \<Longrightarrow> nm \<in> snd (extract_step acc l)"
  by (simp add: extract_step_def)

lemma extract_foldl_assign:
  assumes "l \<in> set ls" and "pattern_def (line_content l) = None"
    and "pattern_class (line_content l) = None" and "pattern_assign (line_content l) = Some nm"
  shows "nm \<in> snd (foldl extract_step acc ls)"
  using assms(1)
proof (induction ls arbitrary: acc)
  case Nil
  then show ?case by simp
next
  case (Cons a ls)
  show ?case
  proof (cases "a = l")
    case True
    have "nm \<in> snd (extract_step acc l)"
      by (rule extract_step_assign[OF assms(2,3,4)])
    then show ?thesis using True by (simp add: extract_foldl_vars_mono)
  next
    case False
    with Cons show ?thesis by simp
  qed
qed

subsection \<open>The pattern functions against their regular expressions\<close>

text \<open>
  Each pattern function returns \<open>Some\<close> of a name exactly when the text splits the way its
  regular expression reads, piece by piece, with that name as group 1. The right-hand
  sides allow every split, so they cover whatever run lengths a backtracking matcher may
  try; the equivalences show that the split, and with it the group, is unique.
\<close>

lemma match_ident_Some:
  "match_ident s = Some (nm, r) \<Longrightarrow>
   \<exists>c cs. nm = c # cs \<and> s = nm @ r \<and> is_ident_start c \<and> (\<forall>x\<in>set cs. is_word x)"
  by (cases s) (auto simp: match_ident_def split: if_splits dest: set_takeWhileD)

lemma pattern_assign_iff:
  "pattern_assign content = Some nm \<longleftrightarrow>
     (\<exists>ws c cs ws' rest. content = ws @ (c # cs) @ ws' @ CHR ''='' # rest \<and> nm = c # cs \<and>
        (\<forall>x\<in>set ws. is_space x) \<and> is_ident_start c \<and> (\<forall>x\<in>set cs. is_word x) \<and>
        (\<forall>x\<in>set ws'. is_space x))"
proof
  assume a: "pattern_assign content = Some nm"
  define ws where "ws = takeWhile is_space content"
  define s1 where "s1 = dropWhile is_space content"
  from a obtain r where mi: "match_ident s1 = Some (nm, r)"
    and st: "startswith (dropWhile is_space r) ''=''"
    by (auto simp: pattern_assign_def s1_def split: option.splits if_splits)
  from match_ident_Some[OF mi] obtain c cs where
    nm: "nm = c # cs" "s1 = nm @ r" "is_ident_start c" "\<forall>x\<in>set cs. is_word x"
    by blast
  define ws' where "ws' = takeWhile is_space r"
  from st obtain rest where rest: "dropWhile is_space r = CHR ''='' # rest"
    by (cases "dropWhile is_space r") (auto simp: startswith_def)
  have "content = ws @ s1"
    by (simp add: ws_def s1_def)
  moreover have "r = ws' @ CHR ''='' # rest"
    using rest[symmetric] by (simp add: ws'_def)
  ultimately have "content = ws @ (c # cs) @ ws' @ CHR ''='' # rest"
    using nm by simp
  moreover have "\<forall>x\<in>set ws. is_space x" "\<forall>x\<in>set ws'. is_space x"
    by (auto simp: ws_def ws'_def dest: set_takeWhileD)
  ultimately show "\<exists>ws c cs ws' rest. content = ws @ (c # cs) @ ws' @ CHR ''='' # rest \<and> nm = c # cs \<and>
        (\<forall>x\<in>set ws. is_space x) \<and> is_ident_start c \<and> (\<forall>x\<in>set cs. is_word x) \<and>
        (\<forall>x\<in>set ws'. is_space x)"
    using nm by blast
next
  assume "\<exists>ws c cs ws' rest. content = ws @ (c # cs) @ ws' @ CHR ''='' # rest \<and> nm = c # cs \<and>
        (\<forall>x\<in>set ws. is_space x) \<and> is_ident_start c \<and> (\<forall>x\<in>set cs. is_word x) \<and>
        (\<forall>x\<in>set ws'. is_space x)"
  then show "pattern_assign content = Some nm"
    using pattern_assign_run by blast
qed

lemma keyword_decl_run:
  assumes ws: "\<forall>x\<in>set ws. is_space x" and kw: "kw \<noteq> []" "\<not> is_space (hd kw)"
    and ws1: "ws1 \<noteq> []" "\<forall>x\<in>set ws1. is_space x"
    and c: "is_ident_start c" and cs: "\<forall>x\<in>set cs. is_word x"
    and ws2: "\<forall>x\<in>set ws2. is_space x"
    and t: "\<not> is_space t" "\<not> is_word t"
  shows "match_keyword_decl kw (ws @ kw @ ws1 @ (c # cs) @ ws2 @ t # rest)
           = Some (c # cs, t # rest)"
proof -
  define r3 where "r3 = ws2 @ t # rest"
  define r2 where "r2 = (c # cs) @ r3"
  define r1 where "r1 = ws1 @ r2"
  have nsc: "\<not> is_space c"
    using c space_not_ident_start by blast
  have a: "dropWhile is_space (ws @ kw @ r1) = kw @ r1"
    by (rule dropWhile_run[OF ws]) (use kw in \<open>cases kw; simp\<close>)
  have b: "startswith (kw @ r1) kw" "drop (length kw) (kw @ r1) = r1"
    by (simp_all add: startswith_def)
  have d: "takeWhile is_space r1 = ws1" "dropWhile is_space r1 = r2"
    unfolding r1_def r2_def
    by (rule takeWhile_run[OF ws1(2)], simp add: nsc, rule dropWhile_run[OF ws1(2)], simp add: nsc)
  have e: "match_ident r2 = Some (c # cs, r3)"
    unfolding r2_def r3_def
    by (rule match_ident_run[OF c cs]) (use ws2 t in \<open>cases ws2; simp add: space_not_word\<close>)
  have f: "dropWhile is_space r3 = t # rest"
    unfolding r3_def by (rule dropWhile_run[OF ws2]) (simp add: t)
  have "match_keyword_decl kw (ws @ kw @ r1) = Some (c # cs, t # rest)"
    unfolding match_keyword_decl_def a Let_def using b d e f ws1(1) by simp
  then show ?thesis
    by (simp add: r1_def r2_def r3_def)
qed

lemma keyword_decl_Some:
  assumes "match_keyword_decl kw content = Some (nm, s)"
  shows "\<exists>ws ws1 c cs ws2. content = ws @ kw @ ws1 @ (c # cs) @ ws2 @ s \<and> nm = c # cs \<and>
           (\<forall>x\<in>set ws. is_space x) \<and> ws1 \<noteq> [] \<and> (\<forall>x\<in>set ws1. is_space x) \<and>
           is_ident_start c \<and> (\<forall>x\<in>set cs. is_word x) \<and> (\<forall>x\<in>set ws2. is_space x)"
proof -
  define ws where "ws = takeWhile is_space content"
  define s1 where "s1 = dropWhile is_space content"
  define s2 where "s2 = drop (length kw) s1"
  define ws1 where "ws1 = takeWhile is_space s2"
  from assms have pre: "startswith s1 kw" and ne: "ws1 \<noteq> []"
    by (auto simp: match_keyword_decl_def Let_def s1_def s2_def ws1_def split: if_splits)
  from assms pre ne obtain s3 where mi: "match_ident (dropWhile is_space s2) = Some (nm, s3)"
    and s: "s = dropWhile is_space s3"
    by (auto simp: match_keyword_decl_def Let_def s1_def s2_def ws1_def split: if_splits option.splits)
  from match_ident_Some[OF mi] obtain c cs where
    nm: "nm = c # cs" "dropWhile is_space s2 = nm @ s3" "is_ident_start c" "\<forall>x\<in>set cs. is_word x"
    by blast
  define ws2 where "ws2 = takeWhile is_space s3"
  have "content = ws @ s1"
    by (simp add: ws_def s1_def)
  moreover from pre have "s1 = kw @ s2"
    unfolding startswith_def s2_def by (metis append_take_drop_id)
  moreover have "s2 = ws1 @ dropWhile is_space s2"
    by (simp add: ws1_def)
  moreover have "s3 = ws2 @ s"
    by (simp add: ws2_def s)
  ultimately have "content = ws @ kw @ ws1 @ (c # cs) @ ws2 @ s"
    using nm(1,2) by simp
  moreover have "\<forall>x\<in>set ws. is_space x" "\<forall>x\<in>set ws1. is_space x" "\<forall>x\<in>set ws2. is_space x"
    by (auto simp: ws_def ws1_def ws2_def dest: set_takeWhileD)
  ultimately show ?thesis
    using nm ne by blast
qed

lemma kw_not_space: "\<not> is_space (hd ''def'')" "\<not> is_space (hd ''class'')"
  by (simp_all add: is_space_def code_def)

lemma punct_chars:
  "\<not> is_space (CHR ''('')" "\<not> is_word (CHR ''('')" "\<not> is_space (CHR '':'')" "\<not> is_word (CHR '':'')"
  by (simp_all add: is_space_def is_word_def code_def)

lemma pattern_def_iff:
  "pattern_def content = Some nm \<longleftrightarrow>
     (\<exists>ws ws1 c cs ws2 rest. content = ws @ ''def'' @ ws1 @ (c # cs) @ ws2 @ CHR ''('' # rest \<and>
        nm = c # cs \<and> (\<forall>x\<in>set ws. is_space x) \<and> ws1 \<noteq> [] \<and> (\<forall>x\<in>set ws1. is_space x) \<and>
        is_ident_start c \<and> (\<forall>x\<in>set cs. is_word x) \<and> (\<forall>x\<in>set ws2. is_space x))"
proof
  assume "pattern_def content = Some nm"
  then obtain s where m: "match_keyword_decl ''def'' content = Some (nm, s)"
    and "startswith s ''(''"
    by (auto simp: pattern_def_def split: option.splits if_splits)
  then obtain rest where "s = CHR ''('' # rest"
    by (cases s) (auto simp: startswith_def)
  with keyword_decl_Some[OF m]
  show "\<exists>ws ws1 c cs ws2 rest. content = ws @ ''def'' @ ws1 @ (c # cs) @ ws2 @ CHR ''('' # rest \<and>
        nm = c # cs \<and> (\<forall>x\<in>set ws. is_space x) \<and> ws1 \<noteq> [] \<and> (\<forall>x\<in>set ws1. is_space x) \<and>
        is_ident_start c \<and> (\<forall>x\<in>set cs. is_word x) \<and> (\<forall>x\<in>set ws2. is_space x)"
    by blast
next
  assume "\<exists>ws ws1 c cs ws2 rest. content = ws @ ''def'' @ ws1 @ (c # cs) @ ws2 @ CHR ''('' # rest \<and>
        nm = c # cs \<and> (\<forall>x\<in>set ws. is_space x) \<and> ws1 \<noteq> [] \<and> (\<forall>x\<in>set ws1. is_space x) \<and>
        is_ident_start c \<and> (\<forall>x\<in>set cs. is_word x) \<and> (\<forall>x\<in>set ws2. is_space x)"
  then obtain ws ws1 c cs ws2 rest where
    d: "content = ws @ ''def'' @ ws1 @ (c # cs) @ ws2 @ CHR ''('' # rest" "nm = c # cs"
      "\<forall>x\<in>set ws. is_space x" "ws1 \<noteq> []" "\<forall>x\<in>set ws1. is_space x"
      "is_ident_start c" "\<forall>x\<in>set cs. is_word x" "\<forall>x\<in>set ws2. is_space x"
    by blast
  have "match_keyword_decl ''def'' content = Some (c # cs, CHR ''('' # rest)"
    unfolding d(1)
    by (rule keyword_decl_run[OF d(3) _ kw_not_space(1) d(4,5,6,7,8) punct_chars(1,2)]) simp
  then show "pattern_def content = Some nm"
    by (simp add: pattern_def_def d(2) startswith_def)
qed

lemma pattern_class_iff:
  "pattern_class content = Some nm \<longleftrightarrow>
     (\<exists>ws ws1 c cs ws2 t rest. content = ws @ ''class'' @ ws1 @ (c # cs) @ ws2 @ t # rest \<and>
        (t = CHR '':'' \<or> t = CHR ''('') \<and>
        nm = c # cs \<and> (\<forall>x\<in>set ws. is_space x) \<and> ws1 \<noteq> [] \<and> (\<forall>x\<in>set ws1. is_space x) \<and>
        is_ident_start c \<and> (\<forall>x\<in>set cs. is_word x) \<and> (\<forall>x\<in>set ws2. is_space x))"
proof
  assume "pattern_class content = Some nm"
  then obtain s where m: "match_keyword_decl ''class'' content = Some (nm, s)"
    and "startswith s '':'' \<or> startswith s ''(''"
    by (auto simp: pattern_class_def split: option.splits if_splits)
  then obtain t rest where "s = t # rest" "t = CHR '':'' \<or> t = CHR ''(''"
    by (cases s) (auto simp: startswith_def)
  with keyword_decl_Some[OF m]
  show "\<exists>ws ws1 c cs ws2 t rest. content = ws @ ''class'' @ ws1 @ (c # cs) @ ws2 @ t # rest \<and>
        (t = CHR '':'' \<or> t = CHR ''('') \<and>
        nm = c # cs \<and> (\<forall>x\<in>set ws. is_space x) \<and> ws1 \<noteq> [] \<and> (\<forall>x\<in>set ws1. is_space x) \<and>
        is_ident_start c \<and> (\<forall>x\<in>set cs. is_word x) \<and> (\<forall>x\<in>set ws2. is_space x)"
    by blast
next
  assume "\<exists>ws ws1 c cs ws2 t rest. content = ws @ ''class'' @ ws1 @ (c # cs) @ ws2 @ t # rest \<and>
        (t = CHR '':'' \<or> t = CHR ''('') \<and>
        nm = c # cs \<and> (\<forall>x\<in>set ws. is_space x) \<and> ws1 \<noteq> [] \<and> (\<forall>x\<in>set ws1. is_space x) \<and>
        is_ident_start c \<and> (\<forall>x\<in>set cs. is_word x) \<and> (\<forall>x\<in>set ws2. is_space x)"
  then obtain ws ws1 c cs ws2 t rest where
    d: "content = ws @ ''class'' @ ws1 @ (c # cs) @ ws2 @ t # rest" "nm = c # cs"
      "\<forall>x\<in>set ws. is_space x" "ws1 \<noteq> []" "\<forall>x\<in>set ws1. is_space x"
      "is_ident_start c" "\<forall>x\<in>set cs. is_word x" "\<forall>x\<in>set ws2. is_space x"
    and t: "t = CHR '':'' \<or> t = CHR ''(''"
    by blast
  from t have t': "\<not> is_space t" "\<not> is_word t"
    using punct_chars by auto
  have "match_keyword_decl ''class'' content = Some (c # cs, t # rest)"
    unfolding d(1)
    by (rule keyword_decl_run[OF d(3) _ kw_not_space(2) d(4,5,6,7,8) t']) simp
  then show "pattern_class content = Some nm"
    using t by (auto simp: pattern_class_def d(2) startswith_def)
qed

lemma match_file_header_iff:
  "match_file_header line = Some grp \<longleftrightarrow>
     (\<exists>ws. line = ''+++'' @ ws @ ''b/'' @ grp \<and> ws \<noteq> [] \<and> (\<forall>x\<in>set ws. is_space x) \<and> grp \<noteq> [])"
proof
  assume a: "match_file_header line = Some grp"
  define r where "r = drop 3 line"
  define ws where "ws = takeWhile is_space r"
  define r' where "r' = dropWhile is_space r"
  from a have p: "startswith line ''+++''" "ws \<noteq> []" "startswith r' ''b/''" "grp = drop 2 r'" "grp \<noteq> []"
    by (auto simp: match_file_header_def Let_def r_def ws_def r'_def split: if_splits)
  from p(1) have "line = ''+++'' @ r"
    unfolding startswith_def r_def by (metis append_take_drop_id length_Cons list.size(3) numeral_3_eq_3)
  moreover have "r = ws @ r'"
    by (simp add: ws_def r'_def)
  moreover from p(3,4) have "r' = ''b/'' @ grp"
    unfolding startswith_def by (metis append_take_drop_id length_Cons list.size(3) numeral_2_eq_2)
  ultimately have "line = ''+++'' @ ws @ ''b/'' @ grp"
    by simp
  moreover have "\<forall>x\<in>set ws. is_space x"
    by (auto simp: ws_def dest: set_takeWhileD)
  ultimately show "\<exists>ws. line = ''+++'' @ ws @ ''b/'' @ grp \<and> ws \<noteq> [] \<and> (\<forall>x\<in>set ws. is_space x) \<and> grp \<noteq> []"
    using p(2,5) by blast
next
  assume "\<exists>ws. line = ''+++'' @ ws @ ''b/'' @ grp \<and> ws \<noteq> [] \<and> (\<forall>x\<in>set ws. is_space x) \<and> grp \<noteq> []"
  then obtain ws where d: "line = ''+++'' @ ws @ ''b/'' @ grp" "ws \<noteq> []"
    "\<forall>x\<in>set ws. is_space x" "grp \<noteq> []"
    by blast
  have nb: "\<not> is_space (CHR ''b'')"
    by (simp add: is_space_def code_def)
  have "takeWhile is_space (ws @ ''b/'' @ grp) = ws" "dropWhile is_space (ws @ ''b/'' @ grp) = ''b/'' @ grp"
    by (rule takeWhile_run[OF d(3)], simp add: nb, rule dropWhile_run[OF d(3)], simp add: nb)
  then show "match_file_header line = Some grp"
    using d(2,4) by (simp add: match_file_header_def d(1) startswith_def)
qed

section \<open>Facts about the scorer\<close>

lemma extract_step_finite:
  "finite (fst acc) \<and> finite (snd acc) \<Longrightarrow>
   finite (fst (extract_step acc l)) \<and> finite (snd (extract_step acc l))"
  by (auto simp: extract_step_def Let_def split: option.splits)

lemma extract_foldl_finite:
  "finite (fst acc) \<and> finite (snd acc) \<Longrightarrow>
   finite (fst (foldl extract_step acc ls)) \<and> finite (snd (foldl extract_step acc ls))"
  by (induction ls arbitrary: acc) (simp_all add: extract_step_finite)

lemma extract_finite:
  "finite (fst (extract_funcs_and_vars_from_hunk h)) \<and>
   finite (snd (extract_funcs_and_vars_from_hunk h))"
  unfolding extract_funcs_and_vars_from_hunk_def by (rule extract_foldl_finite) simp

lemma collect_hunk_finite:
  "finite (fst acc) \<and> finite (snd acc) \<Longrightarrow>
   finite (fst (collect_hunk acc h)) \<and> finite (snd (collect_hunk acc h))"
  using extract_finite[of h] by (simp add: collect_hunk_def split_beta)

lemma collect_hunks_finite:
  "finite (fst acc) \<and> finite (snd acc) \<Longrightarrow>
   finite (fst (foldl collect_hunk acc hs)) \<and> finite (snd (foldl collect_hunk acc hs))"
  by (induction hs arbitrary: acc) (simp_all add: collect_hunk_finite)

lemma collect_files_finite:
  "finite (fst acc) \<and> finite (snd acc) \<Longrightarrow>
   finite (fst (foldl (\<lambda>acc hunks. foldl collect_hunk acc hunks) acc hss)) \<and>
   finite (snd (foldl (\<lambda>acc hunks. foldl collect_hunk acc hunks) acc hss))"
  by (induction hss arbitrary: acc) (simp_all add: collect_hunks_finite)

lemma collect_finite:
  "finite (fst (collect_funcs_vars_from_files_map m)) \<and>
   finite (snd (collect_funcs_vars_from_files_map m))"
  unfolding collect_funcs_vars_from_files_map_def by (rule collect_files_finite) simp

lemma collect_empty: "collect_funcs_vars_from_files_map [] = ({}, {})"
  by (simp add: collect_funcs_vars_from_files_map_def)

lemma parse_empty: "parse_file_hunks [] = []"
  by (simp add: parse_file_hunks_def)

lemma jaccard_self: "finite s \<Longrightarrow> jaccard s s = 1"
  by (simp add: jaccard_def)

lemma jaccard_empty: "jaccard s {} = (if s = {} then 1 else 0)" "jaccard {} s = (if s = {} then 1 else 0)"
  by (simp_all add: jaccard_def)

lemma jaccard_range: "finite s1 \<Longrightarrow> finite s2 \<Longrightarrow> 0 \<le> jaccard s1 s2 \<and> jaccard s1 s2 \<le> 1"
proof -
  assume f: "finite s1" "finite s2"
  then have "card (s1 \<inter> s2) \<le> card (s1 \<union> s2)"
    by (intro card_mono) auto
  then show ?thesis
    by (simp add: jaccard_def divide_le_eq_1)
qed

lemma key_iff: "p \<in> set (map fst m) \<longleftrightarrow> map_of m p \<noteq> None"
  by (simp add: map_of_eq_None_iff)

lemma path_matches_iff:
  "path_matches gm am p = (spec_path_matches gm am p \<and> map_of gm p \<noteq> Some [])"
  unfolding path_matches_def spec_path_matches_def get_hunks_def Let_def key_iff
  by (auto split: option.splits)

lemma file_score_cases:
  "file_score g a =
     (if parse_file_hunks g = [] \<and> parse_file_hunks a = [] then
        (if py_strip g = py_strip a \<and> g \<noteq> [] then 1 else 0)
      else real (card (Set.filter (path_matches (parse_file_hunks g) (parse_file_hunks a))
                  (set (map fst (parse_file_hunks g)) \<union> set (map fst (parse_file_hunks a)))))
           / real (card (set (map fst (parse_file_hunks g)) \<union> set (map fst (parse_file_hunks a)))))"
  unfolding file_score_def Let_def by (simp del: Set.filter_eq)

lemma file_score_range: "0 \<le> file_score g a \<and> file_score g a \<le> 1"
proof -
  define P where "P = set (map fst (parse_file_hunks g)) \<union> set (map fst (parse_file_hunks a))"
  define M where "M = Set.filter (path_matches (parse_file_hunks g) (parse_file_hunks a)) P"
  have "finite P" unfolding P_def by simp
  moreover have "M \<subseteq> P" unfolding M_def by auto
  ultimately have "card M \<le> card P" by (rule card_mono)
  then have "0 \<le> real (card M) / real (card P) \<and> real (card M) / real (card P) \<le> 1"
    by (cases "card P = 0") (simp_all add: divide_le_eq_1)
  then show ?thesis
    unfolding file_score_cases P_def[symmetric] M_def[symmetric] by simp
qed

lemma file_score_one_sided:
  assumes "py_strip d \<noteq> []"
  shows "file_score (py_strip d) [] = 0 \<and> file_score [] (py_strip d) = 0"
proof -
  have a: "py_strip (py_strip d) \<noteq> py_strip []"
    using assms by (simp add: py_strip_idem) (simp add: py_strip_def)
  have n: "\<not> path_matches m [] p" "\<not> path_matches [] m p" for m p
    by (simp_all add: path_matches_def get_hunks_def)
  have m1: "Set.filter (path_matches m []) A = {}" "Set.filter (path_matches [] m) A = {}" for m A
    using n by auto
  show ?thesis
    unfolding file_score_cases parse_empty m1 using a by auto
qed


lemma score_cases:
  "score_patch_similarity g a =
     (if py_strip g = [] \<and> py_strip a = [] then 0
      else max 0 (min 1 (0.5 * file_score (py_strip g) (py_strip a)
                         + 0.35 * func_score (py_strip g) (py_strip a)
                         + 0.15 * var_score (py_strip g) (py_strip a))))"
  by (simp add: score_patch_similarity_def Let_def)

lemma func_score_range: "0 \<le> func_score g a \<and> func_score g a \<le> 1"
  unfolding func_score_def using collect_finite by (intro jaccard_range) auto

lemma var_score_range: "0 \<le> var_score g a \<and> var_score g a \<le> 1"
  unfolding var_score_def using collect_finite by (intro jaccard_range) auto

lemma combined_in_range:
  "0 \<le> 0.5 * file_score g a + 0.35 * func_score g a + 0.15 * var_score g a \<and>
   0.5 * file_score g a + 0.35 * func_score g a + 0.15 * var_score g a \<le> 1"
  using file_score_range[of g a] func_score_range[of g a] var_score_range[of g a] by simp

section \<open>The claims\<close>

text \<open>
  C9. The extractor on the three lines of the specification's scenario:
  \<open>+def handle_request(self, req):\<close> gives the function set \<open>{handle_request}\<close> and no
  variable; \<open>+    timeout = 30\<close> gives the variable set \<open>{timeout}\<close> and no function;
  \<open>+    if timeout == 30:\<close> gives two empty sets.
\<close>

theorem extract_scenarios:
  "extract_funcs_and_vars_from_hunk ''+def handle_request(self, req):''
     = ({''handle_request''}, {})
   \<and> extract_funcs_and_vars_from_hunk ''+    timeout = 30'' = ({}, {''timeout''})
   \<and> extract_funcs_and_vars_from_hunk ''+    if timeout == 30:'' = ({}, {})"
  by code_simp

text \<open>
  C2 (as amended). When a path is opened by more than one \<open>+++ b/\<close> header, the map has
  one key for it, and its value is the hunk list of the last of its sections alone, as if
  that section (the header and the lines up to the next header) were the whole input:
  every store \<open>files[current_file] = current_hunks\<close> replaces what an earlier section
  stored.
\<close>

theorem last_section_wins:
  assumes "splitlines d = pre @ hdr # rest"
    and "header_path hdr = Some p"
    and "\<forall>l\<in>set rest. header_path l \<noteq> Some p"
  shows "map_of (parse_file_hunks d) p
           = map_of (parse_lines (hdr # takeWhile (\<lambda>l. match_file_header l = None) rest)) p
         \<and> map_of (parse_file_hunks d) p \<noteq> None
         \<and> distinct (map fst (parse_file_hunks d))"
proof -
  let ?P = "\<lambda>l. match_file_header l = None"
  let ?body = "takeWhile ?P rest"
  let ?rest = "dropWhile ?P rest"
  let ?t = "\<lparr>files = [], current_file = Some p, current_hunks = [], hunk_buf = []\<rparr>"
  obtain grp where hdr: "match_file_header hdr = Some grp" and p: "p = py_strip grp"
    using assms(2) by (auto simp: header_path_def)
  have body: "\<forall>l\<in>set ?body. match_file_header l = None"
    by (auto dest: set_takeWhileD)
  have r1: "\<forall>l\<in>set ?rest. header_path l \<noteq> Some p"
    using assms(3) by (auto dest: set_dropWhileD)
  have r2: "?rest = [] \<or> match_file_header (hd ?rest) \<noteq> None"
    using takeWhile_dropWhile_next[of ?P rest] by simp
  have "map_of (parse_finish (foldl parse_step (foldl parse_step parse_init pre) (hdr # ?body @ ?rest))) p
       = Some (flush_buf (foldl parse_step ?t ?body))"
    by (rule section_value[OF hdr p body r1 r2])
  then have lhs: "map_of (parse_file_hunks d) p = Some (flush_buf (foldl parse_step ?t ?body))"
    by (simp add: parse_file_hunks_lines assms(1) parse_lines_def)
  have "map_of (parse_finish (foldl parse_step parse_init (hdr # ?body @ []))) p
       = Some (flush_buf (foldl parse_step ?t ?body))"
    by (rule section_value[OF hdr p body]) simp_all
  then have rhs: "map_of (parse_lines (hdr # ?body)) p = Some (flush_buf (foldl parse_step ?t ?body))"
    by (simp add: parse_lines_def)
  show ?thesis using lhs rhs parse_lines_distinct[of "splitlines d"]
    by (simp add: parse_file_hunks_lines)
qed


theorem last_section_wins_witness:
  "splitlines ''+++ b/f\<newline>@@ 1\<newline>+a\<newline>+++ b/f\<newline>@@ 2\<newline>+b''
     = [''+++ b/f'', ''@@ 1'', ''+a''] @ ''+++ b/f'' # [''@@ 2'', ''+b'']
   \<and> header_path ''+++ b/f'' = Some ''f''
   \<and> header_path ''@@ 2'' \<noteq> Some ''f'' \<and> header_path ''+b'' \<noteq> Some ''f''
   \<and> map_of (parse_file_hunks ''+++ b/f\<newline>@@ 1\<newline>+a\<newline>+++ b/f\<newline>@@ 2\<newline>+b'') ''f''
       = map_of (parse_lines [''+++ b/f'', ''@@ 2'', ''+b'']) ''f''
   \<and> map_of (parse_lines [''+++ b/f'', ''@@ 2'', ''+b'']) ''f'' = Some [''@@ 2\<newline>+b'']"
proof -
  have h1: "splitlines ''+++ b/f\<newline>@@ 1\<newline>+a\<newline>+++ b/f\<newline>@@ 2\<newline>+b''
     = [''+++ b/f'', ''@@ 1'', ''+a''] @ ''+++ b/f'' # [''@@ 2'', ''+b'']"
    by code_simp
  have h2: "header_path ''+++ b/f'' = Some ''f''"
    by code_simp
  have h3: "header_path ''@@ 2'' \<noteq> Some ''f'' \<and> header_path ''+b'' \<noteq> Some ''f''"
    by code_simp
  then have h3': "\<forall>l\<in>set [''@@ 2'', ''+b'']. header_path l \<noteq> Some ''f''"
    by simp
  have t: "takeWhile (\<lambda>l. match_file_header l = None) [''@@ 2'', ''+b''] = [''@@ 2'', ''+b'']"
    by code_simp
  have v: "map_of (parse_lines [''+++ b/f'', ''@@ 2'', ''+b'']) ''f'' = Some [''@@ 2\<newline>+b'']"
    by code_simp
  from last_section_wins[OF h1 h2 h3'] t
  have "map_of (parse_file_hunks ''+++ b/f\<newline>@@ 1\<newline>+a\<newline>+++ b/f\<newline>@@ 2\<newline>+b'') ''f''
       = map_of (parse_lines [''+++ b/f'', ''@@ 2'', ''+b'']) ''f''"
    by simp
  with h1 h2 h3 v show ?thesis
    by blast
qed

text \<open>
  The claim as it was stated fails: the file \<open>f\<close> has two sections, with the hunks
  \<open>@@ 1\<close> and \<open>@@ 2\<close>, and the map holds the second hunk only, not the two in order.
\<close>

theorem concatenation_counterexample:
  "parse_file_hunks ''+++ b/f\<newline>@@ 1\<newline>+a'' = [(''f'', [''@@ 1\<newline>+a''])]
   \<and> parse_file_hunks ''+++ b/f\<newline>@@ 2\<newline>+b'' = [(''f'', [''@@ 2\<newline>+b''])]
   \<and> parse_file_hunks ''+++ b/f\<newline>@@ 1\<newline>+a\<newline>+++ b/f\<newline>@@ 2\<newline>+b''
       = [(''f'', [''@@ 2\<newline>+b''])]
   \<and> parse_file_hunks ''+++ b/f\<newline>@@ 1\<newline>+a\<newline>+++ b/f\<newline>@@ 2\<newline>+b''
       \<noteq> [(''f'', [''@@ 1\<newline>+a'', ''@@ 2\<newline>+b''])]"
  by code_simp

text \<open>
  C4 (as amended). For every input, every hunk string of the returned map starts with
  \<open>@@\<close> or with a body marker (\<open>+\<close>, \<open>-\<close> or a space), and every hunk that is not the
  first of its file starts with \<open>@@\<close>. The hunk list of a file comes from the last
  section of that file, the lines after its last \<open>+++ b/\<close> header up to the next header:
  the list is empty exactly when that section has no \<open>@@\<close> line and no body line, and
  otherwise its first hunk starts with the first such line of the section. So the first
  hunk has no \<open>@@\<close> header exactly when that line is a body line, that is, when a body
  line follows the header before any \<open>@@\<close> line: the loop appends a body line whenever a
  file is open, whether or not a hunk is.
\<close>

theorem hunk_starts:
  assumes "(p, hs) \<in> set (parse_file_hunks d)"
  shows "(\<forall>h\<in>set hs. startswith h ''@@'' \<or> is_body_line h)
       \<and> (\<forall>h\<in>set (tl hs). startswith h ''@@'')
       \<and> (\<exists>pre hdr rest.
             splitlines d = pre @ hdr # rest \<and> header_path hdr = Some p \<and>
             (\<forall>l\<in>set rest. header_path l \<noteq> Some p) \<and>
             (hs = [] \<longleftrightarrow> marked_lines (section_lines rest) = []) \<and>
             (hs \<noteq> [] \<longrightarrow>
                startswith (hd hs) (hd (marked_lines (section_lines rest))) \<and>
                (\<not> startswith (hd hs) ''@@'' \<longleftrightarrow> is_body_line (hd (marked_lines (section_lines rest))))))"
proof -
  have mem: "(p, hs) \<in> set (parse_lines (splitlines d))"
    using assms by (simp add: parse_file_hunks_lines)
  have good: "good_hunks hs"
    using parse_lines_good[OF mem] .
  have val: "map_of (parse_lines (splitlines d)) p = Some hs"
    using mem parse_lines_distinct[of "splitlines d"] by simp
  from parse_lines_keys[OF mem]
  obtain pre hdr rest where sp: "splitlines d = pre @ hdr # rest"
    and hp: "header_path hdr = Some p" and last: "\<forall>l\<in>set rest. header_path l \<noteq> Some p"
    using split_list_last_prop[of "splitlines d" "\<lambda>l. header_path l = Some p"] by blast
  define m where "m = marked_lines (section_lines rest)"
  have hs: "hs = flush_buf (foldl parse_step (fresh_section p) (section_lines rest))"
    using last_section_value[OF sp hp last] val by simp
  have nh: "\<forall>l\<in>set (section_lines rest). match_file_header l = None"
    by (auto simp: section_lines_def dest: set_takeWhileD)
  note fh = section_first_hunk[OF nh, of p, folded hs m_def]
  have third: "startswith (hd hs) (hd m) \<and> (\<not> startswith (hd hs) ''@@'' \<longleftrightarrow> is_body_line (hd m))"
    if ne: "hs \<noteq> []"
  proof -
    from fh ne have mne: "m \<noteq> []" and st: "startswith (hd hs) (hd m)"
      by auto
    from mne have "hd m \<in> set m" by simp
    then have mk: "startswith (hd m) ''@@'' \<or> is_body_line (hd m)"
      by (simp add: m_def marked_lines_def)
    show ?thesis
    proof (cases "startswith (hd m) ''@@''")
      case True
      then have "startswith (hd hs) ''@@''"
        using st by (blast intro: startswith_trans)
      with True st show ?thesis
        by (simp add: hunk_header_not_body)
    next
      case False
      with mk have b: "is_body_line (hd m)" by simp
      then have "is_body_line (hd hs)"
        using st by (blast intro: body_line_trans)
      then have "\<not> startswith (hd hs) ''@@''"
        using hunk_header_not_body by blast
      with b st show ?thesis by simp
    qed
  qed
  from good have "(\<forall>h\<in>set hs. startswith h ''@@'' \<or> is_body_line h)
       \<and> (\<forall>h\<in>set (tl hs). startswith h ''@@'')"
    by (simp add: good_hunks_def)
  moreover have "hs = [] \<longleftrightarrow> m = []"
    using fh by simp
  ultimately show ?thesis
    using sp hp last third unfolding m_def by blast
qed

theorem hunk_starts_witness:
  "(''f'', [''+x'', ''@@ 1\<newline>+y'']) \<in> set (parse_file_hunks ''+++ b/f\<newline>+x\<newline>@@ 1\<newline>+y'')
   \<and> (startswith ''+x'' ''@@'' \<or> is_body_line ''+x'')
   \<and> startswith ''@@ 1\<newline>+y'' ''@@''
   \<and> (\<exists>pre hdr rest.
         splitlines ''+++ b/f\<newline>+x\<newline>@@ 1\<newline>+y'' = pre @ hdr # rest \<and> header_path hdr = Some ''f'' \<and>
         startswith ''+x'' (hd (marked_lines (section_lines rest))) \<and>
         (\<not> startswith ''+x'' ''@@'' \<longleftrightarrow> is_body_line (hd (marked_lines (section_lines rest)))))"
proof -
  have h1: "(''f'', [''+x'', ''@@ 1\<newline>+y''])
              \<in> set (parse_file_hunks ''+++ b/f\<newline>+x\<newline>@@ 1\<newline>+y'')"
    by code_simp
  have h2: "startswith ''@@ 1\<newline>+y'' ''@@''"
    by code_simp
  from hunk_starts[OF h1] have
    a: "startswith ''+x'' ''@@'' \<or> is_body_line ''+x''"
    and b: "\<exists>pre hdr rest.
         splitlines ''+++ b/f\<newline>+x\<newline>@@ 1\<newline>+y'' = pre @ hdr # rest \<and> header_path hdr = Some ''f'' \<and>
         startswith ''+x'' (hd (marked_lines (section_lines rest))) \<and>
         (\<not> startswith ''+x'' ''@@'' \<longleftrightarrow> is_body_line (hd (marked_lines (section_lines rest))))"
    by (simp, simp, blast)
  from h1 h2 a b show ?thesis
    by blast
qed

text \<open>
  The claim as it was stated fails: a body line right after the file header makes a hunk
  that does not start with \<open>@@\<close>.
\<close>

theorem hunk_header_counterexample:
  "parse_file_hunks ''+++ b/f\<newline>+x'' = [(''f'', [''+x''])]
   \<and> \<not> startswith ''+x'' ''@@''"
  by code_simp

text \<open>
  C8. The parser has no failing branch: the source applies \<open>splitlines\<close>, \<open>re.match\<close>,
  \<open>startswith\<close>, \<open>strip\<close>, \<open>join\<close>, \<open>append\<close> and a dictionary store, none of which raises
  on a string, and \<open>parse_file_hunks\<close> is a total function built from their models. An
  empty or whitespace-only text gives the empty map, and a line that is no file header,
  no \<open>@@\<close> line and no body line leaves the result as it is without that line.
\<close>

theorem parser_lenient:
  "((\<forall>c\<in>set d. is_space c) \<longrightarrow> parse_file_hunks d = [])
   \<and> (match_file_header l = None \<and> \<not> startswith l ''@@'' \<and> \<not> is_body_line l
        \<and> splitlines d1 = xs @ l # ys \<and> splitlines d2 = xs @ ys
      \<longrightarrow> parse_file_hunks d1 = parse_file_hunks d2)"
proof (intro conjI impI)
  assume a: "\<forall>c\<in>set d. is_space c"
  have "\<forall>l\<in>set (splitlines d). match_file_header l = None"
  proof
    fix l assume "l \<in> set (splitlines d)"
    then have "set l \<subseteq> set d" by (rule splitlines_chars)
    with a have "\<forall>c\<in>set l. is_space c" by auto
    then show "match_file_header l = None" by (rule space_line_no_header)
  qed
  then show "parse_file_hunks d = []" by (simp add: parse_file_hunks_lines no_header_empty)
next
  assume a: "match_file_header l = None \<and> \<not> startswith l ''@@'' \<and> \<not> is_body_line l
        \<and> splitlines d1 = xs @ l # ys \<and> splitlines d2 = xs @ ys"
  then have "parse_step (foldl parse_step parse_init xs) l = foldl parse_step parse_init xs"
    by (simp add: step_unrecognized)
  with a show "parse_file_hunks d1 = parse_file_hunks d2"
    by (simp add: parse_file_hunks_lines parse_lines_def)
qed


theorem parser_lenient_witness:
  "is_space (CHR '' '') \<and> parse_file_hunks ''  '' = []
   \<and> match_file_header ''index 1'' = None \<and> \<not> startswith ''index 1'' ''@@''
   \<and> \<not> is_body_line ''index 1''
   \<and> splitlines ''+++ b/f\<newline>index 1\<newline>@@ 1\<newline>+x'' = [''+++ b/f''] @ ''index 1'' # [''@@ 1'', ''+x'']
   \<and> splitlines ''+++ b/f\<newline>@@ 1\<newline>+x'' = [''+++ b/f''] @ [''@@ 1'', ''+x'']
   \<and> parse_file_hunks ''+++ b/f\<newline>index 1\<newline>@@ 1\<newline>+x''
       = parse_file_hunks ''+++ b/f\<newline>@@ 1\<newline>+x''"
proof -
  have sp: "is_space (CHR '' '')"
    by code_simp
  then have h1: "\<forall>c\<in>set ''  ''. is_space c"
    by simp
  have h2: "match_file_header ''index 1'' = None \<and> \<not> startswith ''index 1'' ''@@''
      \<and> \<not> is_body_line ''index 1''
      \<and> splitlines ''+++ b/f\<newline>index 1\<newline>@@ 1\<newline>+x'' = [''+++ b/f''] @ ''index 1'' # [''@@ 1'', ''+x'']
      \<and> splitlines ''+++ b/f\<newline>@@ 1\<newline>+x'' = [''+++ b/f''] @ [''@@ 1'', ''+x'']"
    by code_simp
  from parser_lenient[of "''  ''" "''index 1''" "''+++ b/f\<newline>index 1\<newline>@@ 1\<newline>+x''"
      "[''+++ b/f'']" "[''@@ 1'', ''+x'']" "''+++ b/f\<newline>@@ 1\<newline>+x''"] h1 h2 sp
  show ?thesis
    by blast
qed

text \<open>
  C10. A hunk line whose content (the line without its leading \<open>+\<close>, \<open>-\<close> or space)
  is optional whitespace, an identifier, optional whitespace and then \<open>==\<close> puts the
  identifier into the variable set: neither declaration pattern matches such a line, and
  the assignment pattern stops at the first \<open>=\<close> of the comparison.
\<close>

theorem comparison_taken_as_assignment:
  assumes "l \<in> set (splitlines hunk)"
    and "line_content l = ws @ (c # cs) @ ws' @ ''=='' @ rest"
    and "\<forall>x\<in>set ws. is_space x" and "is_ident_start c" and "\<forall>x\<in>set cs. is_word x"
    and "\<forall>x\<in>set ws'. is_space x"
  shows "c # cs \<in> snd (extract_funcs_and_vars_from_hunk hunk)"
proof -
  have eq: "line_content l = ws @ (c # cs) @ ws' @ CHR ''='' # (CHR ''='' # rest)"
    using assms(2) by simp
  have a: "pattern_assign (line_content l) = Some (c # cs)"
    unfolding eq by (rule pattern_assign_run[OF assms(3,4,5,6)])
  have "match_keyword_decl ''def'' (line_content l) = None"
    unfolding eq by (rule keyword_decl_none[OF kw_def_word assms(3,4,5,6)])
  then have d: "pattern_def (line_content l) = None"
    by (simp add: pattern_def_def)
  have "match_keyword_decl ''class'' (line_content l) = None"
    unfolding eq by (rule keyword_decl_none[OF kw_class_word assms(3,4,5,6)])
  then have k: "pattern_class (line_content l) = None"
    by (simp add: pattern_class_def)
  show ?thesis
    unfolding extract_funcs_and_vars_from_hunk_def
    by (rule extract_foldl_assign[OF assms(1) d k a])
qed

theorem comparison_taken_as_assignment_witness:
  "''+x == 1'' \<in> set (splitlines ''@@ -1 +1 @@\<newline>+x == 1'')
   \<and> line_content ''+x == 1'' = [] @ ''x'' @ '' '' @ ''=='' @ '' 1''
   \<and> is_ident_start (CHR ''x'') \<and> is_space (CHR '' '')
   \<and> ''x'' \<in> snd (extract_funcs_and_vars_from_hunk ''@@ -1 +1 @@\<newline>+x == 1'')"
proof -
  have h1: "''+x == 1'' \<in> set (splitlines ''@@ -1 +1 @@\<newline>+x == 1'')"
    by code_simp
  have h2: "line_content ''+x == 1'' = [] @ (CHR ''x'' # []) @ '' '' @ ''=='' @ '' 1''"
    by code_simp
  have h3: "is_ident_start (CHR ''x'')"
    by code_simp
  have h4: "is_space (CHR '' '')"
    by code_simp
  have h5: "\<forall>x\<in>set ''''. is_space x" "\<forall>x\<in>set ''''. is_word x"
    by simp_all
  have h6: "\<forall>x\<in>set '' ''. is_space x"
    using h4 by simp
  from comparison_taken_as_assignment[OF h1 h2 h5(1) h3 h5(2) h6] h1 h2 h3 h4
  show ?thesis by simp
qed

text \<open>
  C1 (as amended). For every text \<open>d\<close> that is not empty after trimming, the file-identity
  component of \<open>score(d, "")\<close> and of \<open>score("", d)\<close> is 0, and both scores are
  \<open>0.35 * [d yields no function name] + 0.15 * [d yields no variable name]\<close>: the Jaccard
  rule gives 1 for two empty sets and 0 for one empty and one non-empty set. So both
  scores are 0 exactly when \<open>d\<close> yields at least one function name and at least one
  variable name.
\<close>

theorem one_sided_score:
  assumes "py_strip d \<noteq> []"
  shows "file_score (py_strip d) [] = 0 \<and> file_score [] (py_strip d) = 0
     \<and> score_patch_similarity d [] =
         0.35 * (if fst (collect_funcs_vars_from_files_map (parse_file_hunks (py_strip d))) = {} then 1 else 0)
       + 0.15 * (if snd (collect_funcs_vars_from_files_map (parse_file_hunks (py_strip d))) = {} then 1 else 0)
     \<and> score_patch_similarity [] d = score_patch_similarity d []
     \<and> (score_patch_similarity d [] = 0 \<longleftrightarrow>
          fst (collect_funcs_vars_from_files_map (parse_file_hunks (py_strip d))) \<noteq> {} \<and>
          snd (collect_funcs_vars_from_files_map (parse_file_hunks (py_strip d))) \<noteq> {})"
proof -
  have e: "py_strip [] = []" by (simp add: py_strip_def)
  note fs = file_score_one_sided[OF assms]
  show ?thesis
    unfolding score_cases e func_score_def var_score_def parse_empty collect_empty
    using assms fs by (simp add: jaccard_empty)
qed


theorem one_sided_score_witness:
  "py_strip ''+++ b/f\<newline>@@ 1\<newline>+def g():\<newline>+x = 1'' \<noteq> []
   \<and> file_score (py_strip ''+++ b/f\<newline>@@ 1\<newline>+def g():\<newline>+x = 1'') [] = 0
   \<and> score_patch_similarity [] ''+++ b/f\<newline>@@ 1\<newline>+def g():\<newline>+x = 1'' = score_patch_similarity ''+++ b/f\<newline>@@ 1\<newline>+def g():\<newline>+x = 1'' []
   \<and> score_patch_similarity ''+++ b/f\<newline>@@ 1\<newline>+def g():\<newline>+x = 1'' [] = 0"
proof -
  have h: "py_strip ''+++ b/f\<newline>@@ 1\<newline>+def g():\<newline>+x = 1'' \<noteq> []"
    by code_simp
  have v: "score_patch_similarity ''+++ b/f\<newline>@@ 1\<newline>+def g():\<newline>+x = 1'' [] = 0"
    by code_simp
  from one_sided_score[OF h] h v show ?thesis
    by blast
qed

text \<open>
  The claim as it was stated fails: a text with no file section, and a diff that assigns
  a variable but defines no function, each scored against the empty text.
\<close>

theorem one_sided_counterexample:
  "py_strip ''hello'' \<noteq> []
   \<and> func_score (py_strip ''hello'') (py_strip []) = 1
   \<and> var_score (py_strip ''hello'') (py_strip []) = 1
   \<and> score_patch_similarity ''hello'' [] = 1 / 2
   \<and> score_patch_similarity [] ''hello'' = 1 / 2
   \<and> score_patch_similarity ''+++ b/f\<newline>@@ -1 +1 @@\<newline>+x = 1'' [] = 35 / 100"
  by code_simp

text \<open>
  C3 (as amended). When at least one parsed map is non-empty, the union \<open>P\<close> of the two
  key sets is non-empty and \<open>file_score = matches / |P|\<close>, where a path of \<open>P\<close> is a
  match exactly when it is a key of both maps and the two hunk sequences are equal and
  not empty: the test \<open>g_hunks and a_hunks and g_hunks == a_hunks\<close> leaves out a file
  whose hunk list is empty on both sides.
\<close>

theorem file_score_counts:
  assumes "parse_file_hunks g \<noteq> [] \<or> parse_file_hunks a \<noteq> []"
  shows "file_score g a =
      real (card {p \<in> set (map fst (parse_file_hunks g)) \<union> set (map fst (parse_file_hunks a)).
                    spec_path_matches (parse_file_hunks g) (parse_file_hunks a) p \<and>
                    map_of (parse_file_hunks g) p \<noteq> Some []})
      / real (card (set (map fst (parse_file_hunks g)) \<union> set (map fst (parse_file_hunks a))))
    \<and> set (map fst (parse_file_hunks g)) \<union> set (map fst (parse_file_hunks a)) \<noteq> {}"
  unfolding file_score_cases using assms by (auto simp: path_matches_iff)


theorem file_score_counts_witness:
  "parse_file_hunks ''+++ b/f\<newline>@@ 1\<newline>+x'' \<noteq> []
   \<and> file_score ''+++ b/f\<newline>@@ 1\<newline>+x'' ''+++ b/f\<newline>@@ 1\<newline>+x\<newline>+++ b/g'' =
      real (card {p \<in> set (map fst (parse_file_hunks ''+++ b/f\<newline>@@ 1\<newline>+x'')) \<union> set (map fst (parse_file_hunks ''+++ b/f\<newline>@@ 1\<newline>+x\<newline>+++ b/g'')).
                    spec_path_matches (parse_file_hunks ''+++ b/f\<newline>@@ 1\<newline>+x'') (parse_file_hunks ''+++ b/f\<newline>@@ 1\<newline>+x\<newline>+++ b/g'') p \<and>
                    map_of (parse_file_hunks ''+++ b/f\<newline>@@ 1\<newline>+x'') p \<noteq> Some []})
      / real (card (set (map fst (parse_file_hunks ''+++ b/f\<newline>@@ 1\<newline>+x'')) \<union> set (map fst (parse_file_hunks ''+++ b/f\<newline>@@ 1\<newline>+x\<newline>+++ b/g''))))
   \<and> file_score ''+++ b/f\<newline>@@ 1\<newline>+x'' ''+++ b/f\<newline>@@ 1\<newline>+x\<newline>+++ b/g'' = 1 / 2"
proof -
  have h: "parse_file_hunks ''+++ b/f\<newline>@@ 1\<newline>+x'' \<noteq> []"
    by code_simp
  then have h': "parse_file_hunks ''+++ b/f\<newline>@@ 1\<newline>+x'' \<noteq> [] \<or> parse_file_hunks ''+++ b/f\<newline>@@ 1\<newline>+x\<newline>+++ b/g'' \<noteq> []"
    by simp
  have v: "file_score ''+++ b/f\<newline>@@ 1\<newline>+x'' ''+++ b/f\<newline>@@ 1\<newline>+x\<newline>+++ b/g'' = 1 / 2"
    by code_simp
  from file_score_counts[OF h'] h v show ?thesis
    by blast
qed

text \<open>
  The claim as it was stated fails: the file \<open>f\<close> is a key of both maps with the same,
  empty, hunk sequence; the specification's rule counts it (score 1), the code does not
  (score 0).
\<close>

theorem empty_hunks_counterexample:
  "parse_file_hunks ''+++ b/f'' = [(''f'', [])]
   \<and> spec_file_score ''+++ b/f'' ''+++ b/f'' = 1
   \<and> file_score ''+++ b/f'' ''+++ b/f'' = 0"
  by code_simp

text \<open>
  C5 (as amended). For every text \<open>d\<close> that is not empty after trimming and in whose
  parsed map every file has at least one hunk, \<open>score(d, d) = 1\<close>. One well-formed section
  is not enough: a file whose section has no hunk is never counted as a match, even
  against itself.
\<close>

theorem self_score:
  assumes "py_strip d \<noteq> []" and "\<forall>e\<in>set (parse_file_hunks (py_strip d)). snd e \<noteq> []"
  shows "score_patch_similarity d d = 1"
proof -
  let ?m = "parse_file_hunks (py_strip d)"
  have pm: "path_matches ?m ?m p" if "p \<in> set (map fst ?m)" for p
  proof -
    from that have "map_of ?m p \<noteq> None"
      unfolding key_iff .
    then obtain hs where hs: "map_of ?m p = Some hs"
      by blast
    then have "(p, hs) \<in> set ?m" by (rule map_of_SomeD)
    with assms(2) have "hs \<noteq> []" by auto
    with hs show ?thesis by (simp add: path_matches_def get_hunks_def)
  qed
  then have "Set.filter (path_matches ?m ?m) (set (map fst ?m) \<union> set (map fst ?m)) = set (map fst ?m)"
    by auto
  moreover have "?m \<noteq> [] \<Longrightarrow> card (set (map fst ?m)) \<noteq> 0"
    by (cases ?m) auto
  ultimately have f: "file_score (py_strip d) (py_strip d) = 1"
    unfolding file_score_cases using assms(1) by (simp del: Set.filter_eq)
  have j: "func_score (py_strip d) (py_strip d) = 1" "var_score (py_strip d) (py_strip d) = 1"
    unfolding func_score_def var_score_def using collect_finite by (simp_all add: jaccard_self)
  show ?thesis
    unfolding score_cases f j using assms(1) by simp
qed


theorem self_score_witness:
  "py_strip ''+++ b/f\<newline>@@ 1\<newline>+x'' \<noteq> []
   \<and> parse_file_hunks (py_strip ''+++ b/f\<newline>@@ 1\<newline>+x'') = [(''f'', [''@@ 1\<newline>+x''])]
   \<and> score_patch_similarity ''+++ b/f\<newline>@@ 1\<newline>+x'' ''+++ b/f\<newline>@@ 1\<newline>+x'' = 1"
proof -
  have h1: "py_strip ''+++ b/f\<newline>@@ 1\<newline>+x'' \<noteq> []"
    by code_simp
  have h2: "parse_file_hunks (py_strip ''+++ b/f\<newline>@@ 1\<newline>+x'') = [(''f'', [''@@ 1\<newline>+x''])]"
    by code_simp
  then have h3: "\<forall>e\<in>set (parse_file_hunks (py_strip ''+++ b/f\<newline>@@ 1\<newline>+x'')). snd e \<noteq> []"
    by simp
  from self_score[OF h1 h3] h1 h2 show ?thesis
    by blast
qed

text \<open>
  The claim as it was stated fails: the text has a well-formed section for \<open>f\<close> and a
  header for \<open>g\<close> with no hunk; scored against itself it gets 0.75.
\<close>

theorem self_score_counterexample:
  "parse_file_hunks (py_strip ''+++ b/f\<newline>@@ -1 +1 @@\<newline>+x\<newline>+++ b/g'')
     = [(''f'', [''@@ -1 +1 @@\<newline>+x'']), (''g'', [])]
   \<and> score_patch_similarity ''+++ b/f\<newline>@@ -1 +1 @@\<newline>+x\<newline>+++ b/g''
        ''+++ b/f\<newline>@@ -1 +1 @@\<newline>+x\<newline>+++ b/g'' = 3 / 4"
  by code_simp

text \<open>
  C6 (as amended). For every pair of inputs that are not both empty after trimming, the
  score is \<open>0.5 * fileScore + 0.35 * funcScore + 0.15 * varScore\<close> clamped into [0, 1];
  when both are empty after trimming the score is 0 (the function returns before the
  components are computed); in every case the score lies in [0, 1].
\<close>

theorem score_formula:
  "(py_strip g \<noteq> [] \<or> py_strip a \<noteq> [] \<longrightarrow>
      score_patch_similarity g a =
        max 0 (min 1 (0.5 * file_score (py_strip g) (py_strip a)
                      + 0.35 * func_score (py_strip g) (py_strip a)
                      + 0.15 * var_score (py_strip g) (py_strip a))))
   \<and> (py_strip g = [] \<and> py_strip a = [] \<longrightarrow> score_patch_similarity g a = 0)
   \<and> 0 \<le> score_patch_similarity g a \<and> score_patch_similarity g a \<le> 1"
  unfolding score_cases by auto


theorem score_formula_witness:
  "py_strip ''hello'' \<noteq> []
   \<and> score_patch_similarity ''hello'' [] =
        max 0 (min 1 (0.5 * file_score (py_strip ''hello'') (py_strip [])
                      + 0.35 * func_score (py_strip ''hello'') (py_strip [])
                      + 0.15 * var_score (py_strip ''hello'') (py_strip [])))
   \<and> py_strip [] = []
   \<and> score_patch_similarity [] [] = 0
   \<and> 0 \<le> score_patch_similarity ''hello'' [] \<and> score_patch_similarity ''hello'' [] \<le> 1"
proof -
  have h1: "py_strip ''hello'' \<noteq> []"
    by code_simp
  have h2: "py_strip [] = []"
    by code_simp
  from score_formula[of "''hello''" "[]"] score_formula[of "[]" "[]"] h1 h2 show ?thesis
    by blast
qed

text \<open>
  The claim as it was stated fails at two empty inputs: the weighted sum of the three
  components is 0.5 there (two empty identifier sets have Jaccard coefficient 1), and
  the function returns 0.
\<close>

theorem both_empty_counterexample:
  "score_patch_similarity [] [] = 0
   \<and> max 0 (min 1 (0.5 * file_score (py_strip []) (py_strip [])
                    + 0.35 * func_score (py_strip []) (py_strip [])
                    + 0.15 * var_score (py_strip []) (py_strip []))) = (1 / 2 :: real)"
  by code_simp

text \<open>
  C7. When both trimmed inputs parse to empty maps, the file-identity component is 1 if
  the two trimmed texts are equal and not empty, and 0 otherwise.
\<close>

theorem file_score_fallback:
  assumes "parse_file_hunks (py_strip g) = []" and "parse_file_hunks (py_strip a) = []"
  shows "file_score (py_strip g) (py_strip a)
           = (if py_strip g = py_strip a \<and> py_strip g \<noteq> [] then 1 else 0)"
  unfolding file_score_cases using assms by (simp add: py_strip_idem)


theorem file_score_fallback_witness:
  "parse_file_hunks (py_strip '' hello '') = []
   \<and> parse_file_hunks (py_strip ''hello'') = []
   \<and> py_strip '' hello '' = py_strip ''hello'' \<and> py_strip '' hello '' \<noteq> []
   \<and> file_score (py_strip '' hello '') (py_strip ''hello'') = 1"
proof -
  have h1: "parse_file_hunks (py_strip '' hello '') = []"
    by code_simp
  have h2: "parse_file_hunks (py_strip ''hello'') = []"
    by code_simp
  have h3: "py_strip '' hello '' = py_strip ''hello''"
    by code_simp
  have h4: "py_strip '' hello '' \<noteq> []"
    by code_simp
  have "file_score (py_strip '' hello '') (py_strip ''hello'') = 1"
    unfolding file_score_fallback[OF h1 h2] using h3 h4 by (simp only: simp_thms if_True)
  with h1 h2 h3 h4 show ?thesis
    by blast
qed

end
